theory Spec2Isabelle
  imports Main "HOL-Library.Word"
begin

unbundle bit_operations_syntax

section \<open>The LZW compressor (\<open>lzwEncode\<close>)\<close>

text \<open>
  Numbers are \<open>nat\<close>: with \<open>minCodeSize \<le> 11\<close> no value reaches the 32 bits at which the
  bit operators of JavaScript wrap (a code is below \<open>2 ^ 12\<close>, and it is shifted by at
  most 7). The table is a \<open>Map\<close> from strings to numbers.
\<close>

text \<open>The closure variables \<open>output\<close> (here \<open>outBytes\<close>), \<open>buffer\<close> and \<open>bufferLen\<close> that \<open>writeBits\<close> updates.\<close>

record bitbuf =
  outBytes :: "nat list"
  buffer :: nat
  bufferLen :: nat

text \<open>The \<open>while (bufferLen >= 8)\<close> loop of \<open>writeBits\<close>.\<close>

function flushBytes :: "bitbuf \<Rightarrow> bitbuf" where
  "flushBytes b =
     (if bufferLen b \<ge> 8
      then flushBytes \<lparr>outBytes = outBytes b @ [buffer b AND 255],
                       buffer = drop_bit 8 (buffer b),
                       bufferLen = bufferLen b - 8\<rparr>
      else b)"
  by pat_completeness auto
termination
  by (relation "measure bufferLen") auto

declare flushBytes.simps [simp del]

text \<open>
  \<open>writeBits(code, size)\<close>. The code is what \<open>table.get\<close> returned, so it can be
  \<open>undefined\<close> (\<open>None\<close>); \<open>undefined << bufferLen\<close> is 0 in JavaScript.
\<close>

definition toInt :: "nat option \<Rightarrow> nat" where
  "toInt v = (case v of None \<Rightarrow> 0 | Some c \<Rightarrow> c)"

definition writeBits :: "nat option \<Rightarrow> nat \<Rightarrow> bitbuf \<Rightarrow> bitbuf" where
  "writeBits code sz b =
     flushBytes (b\<lparr>buffer := buffer b OR push_bit (bufferLen b) (toInt code),
                   bufferLen := bufferLen b + sz\<rparr>)"

text \<open>\<open>String(i)\<close> for a natural number \<open>i\<close>: its decimal numeral.\<close>

function jsString :: "nat \<Rightarrow> string" where
  "jsString n =
     (if n < 10 then [char_of (48 + n)]
      else jsString (n div 10) @ [char_of (48 + n mod 10)])"
  by pat_completeness auto
termination
  by (relation "measure id") auto

declare jsString.simps [simp del]

text \<open>The table after the loop \<open>for (i = 0; i < clearCode; i++) table.set(String(i), i)\<close>.\<close>

definition initTable :: "nat \<Rightarrow> (string \<rightharpoonup> nat)" where
  "initTable clearCode = fold (\<lambda>i t. t(jsString i \<mapsto> i)) [0..<clearCode] Map.empty"

text \<open>
  The variables of \<open>lzwEncode\<close> that the main loop updates; \<open>'k\<close> is the type of the keys of
  the table, \<open>string\<close> in the program.
\<close>

record 'k lzw =
  table :: "'k \<rightharpoonup> nat"
  nextCode :: nat
  codeSize :: nat
  w :: 'k
  bits :: bitbuf

definition maxTableSize :: nat where
  "maxTableSize = 4096"

text \<open>
  One iteration of the main loop, for the index \<open>k = indices[i]\<close>; \<open>table.has(wk)\<close> is
  \<open>table s wk \<noteq> None\<close>.
\<close>

definition lzwStep :: "nat \<Rightarrow> nat \<Rightarrow> string lzw \<Rightarrow> string lzw" where
  "lzwStep minCodeSize k s =
     (let clearCode = push_bit minCodeSize 1;
          eoiCode = clearCode + 1;
          wk = w s @ '','' @ jsString k
      in if table s wk \<noteq> None then s\<lparr>w := wk\<rparr>
         else
           let b1 = writeBits (table s (w s)) (codeSize s) (bits s)
           in if nextCode s < maxTableSize
              then
                let nextCode' = nextCode s + 1
                in s\<lparr>table := (table s)(wk \<mapsto> nextCode s),
                     nextCode := nextCode',
                     codeSize := (if nextCode' > push_bit (codeSize s) 1 \<and> codeSize s < 12
                                  then codeSize s + 1 else codeSize s),
                     w := jsString k,
                     bits := b1\<rparr>
              else
                s\<lparr>table := initTable clearCode,
                    nextCode := eoiCode + 1,
                    codeSize := minCodeSize + 1,
                    w := jsString k,
                    bits := writeBits (Some clearCode) (codeSize s) b1\<rparr>)"

text \<open>The main loop \<open>for (i = 1; i < indices.length; i++)\<close>, over the indices from position 1 on.\<close>

fun lzwLoop :: "nat \<Rightarrow> nat list \<Rightarrow> string lzw \<Rightarrow> string lzw" where
  "lzwLoop minCodeSize [] s = s"
| "lzwLoop minCodeSize (k # ks) s = lzwLoop minCodeSize ks (lzwStep minCodeSize k s)"

text \<open>
  \<open>xs[i]\<close> in JavaScript: \<open>undefined\<close> (\<open>None\<close>) at a position the array does not have.
\<close>

definition jsIndex :: "nat list \<Rightarrow> nat \<Rightarrow> nat option" where
  "jsIndex xs i = (if i < length xs then Some (xs ! i) else None)"

text \<open>
  The state before the main loop: the seeded table, the Clear code written, and
  \<open>w = String(indices[0])\<close>. On an empty array \<open>indices[0]\<close> is \<open>undefined\<close> and \<open>w\<close> is the
  string \<open>"undefined"\<close>.
\<close>

definition lzwInit :: "nat list \<Rightarrow> nat \<Rightarrow> string lzw" where
  "lzwInit indices minCodeSize =
     (let clearCode = push_bit minCodeSize 1;
          eoiCode = clearCode + 1;
          codeSize = minCodeSize + 1
      in \<lparr>table = initTable clearCode,
          nextCode = eoiCode + 1,
          codeSize = codeSize,
          w = (case jsIndex indices 0 of None \<Rightarrow> ''undefined'' | Some i0 \<Rightarrow> jsString i0),
          bits = writeBits (Some clearCode) codeSize \<lparr>outBytes = [], buffer = 0, bufferLen = 0\<rparr>\<rparr>)"

text \<open>The code after the loop: the pending \<open>w\<close>, End-of-Information, and the last partial byte.\<close>

definition lzwFinish :: "nat \<Rightarrow> string lzw \<Rightarrow> nat list" where
  "lzwFinish minCodeSize s =
     (let eoiCode = push_bit minCodeSize 1 + 1;
          b1 = writeBits (table s (w s)) (codeSize s) (bits s);
          b2 = writeBits (Some eoiCode) (codeSize s) b1
      in if bufferLen b2 > 0 then outBytes b2 @ [buffer b2 AND 255] else outBytes b2)"

definition lzwEncode :: "nat list \<Rightarrow> nat \<Rightarrow> nat list" where
  "lzwEncode indices minCodeSize =
     lzwFinish minCodeSize (lzwLoop minCodeSize (tl indices) (lzwInit indices minCodeSize))"

subsection \<open>The codes \<open>lzwEncode\<close> writes\<close>

text \<open>
  The calls of \<open>writeBits\<close> in program order, each with its code and its width: those of one
  iteration, of the main loop, of the code after the loop, and of a whole run.
\<close>

definition stepCodes :: "nat \<Rightarrow> nat \<Rightarrow> string lzw \<Rightarrow> (nat option \<times> nat) list" where
  "stepCodes minCodeSize k s =
     (if table s (w s @ '','' @ jsString k) \<noteq> None then []
      else if nextCode s < maxTableSize then [(table s (w s), codeSize s)]
      else [(table s (w s), codeSize s), (Some (push_bit minCodeSize 1), codeSize s)])"

fun loopCodes :: "nat \<Rightarrow> nat list \<Rightarrow> string lzw \<Rightarrow> (nat option \<times> nat) list" where
  "loopCodes minCodeSize [] s = []"
| "loopCodes minCodeSize (k # ks) s =
     stepCodes minCodeSize k s @ loopCodes minCodeSize ks (lzwStep minCodeSize k s)"

definition finishCodes :: "nat \<Rightarrow> string lzw \<Rightarrow> (nat option \<times> nat) list" where
  "finishCodes minCodeSize s =
     [(table s (w s), codeSize s), (Some (push_bit minCodeSize 1 + 1), codeSize s)]"

definition lzwCodes :: "nat list \<Rightarrow> nat \<Rightarrow> (nat option \<times> nat) list" where
  "lzwCodes indices minCodeSize =
     (Some (push_bit minCodeSize 1), minCodeSize + 1)
       # loopCodes minCodeSize (tl indices) (lzwInit indices minCodeSize)
       @ finishCodes minCodeSize (lzwLoop minCodeSize (tl indices) (lzwInit indices minCodeSize))"

text \<open>The \<open>n\<close> low bits of a code, least significant first, and the bits of a code sequence.\<close>

definition codeBits :: "nat \<Rightarrow> nat \<Rightarrow> bool list" where
  "codeBits n c = map (bit c) [0..<n]"

definition codesBits :: "(nat option \<times> nat) list \<Rightarrow> bool list" where
  "codesBits cs = concat (map (\<lambda>(c, n). codeBits n (toInt c)) cs)"

section \<open>A GIF LZW decoder\<close>

text \<open>
  The round-trip property of the specification names a standard GIF LZW decoder. The
  repository has none (its output goes to the browser), so the decoder of the GIF89a
  specification is defined here, as decoders commonly implement it. It reads codes
  least-significant bit first at the current code width; a Clear code resets it; the
  End-of-Information code, or too few remaining bits for one more code, ends the data. After
  every data code but the first following a Clear it adds one table entry (the previous
  sequence extended by the first index of the current one) while there are fewer than 4096
  codes, and it widens the code by one bit, up to 12, when the next free code reaches
  \<open>2 ^ codeSize\<close>. A code that is neither in the table nor the next free code makes the
  stream corrupt (\<open>None\<close>).
\<close>

definition bitsOfByte :: "nat \<Rightarrow> bool list" where
  "bitsOfByte b = map (bit b) [0..<8]"

definition bitsOf :: "nat list \<Rightarrow> bool list" where
  "bitsOf bytes = concat (map bitsOfByte bytes)"

definition readCode :: "bool list \<Rightarrow> nat" where
  "readCode bs = horner_sum of_bool 2 bs"

record decoder =
  dict :: "nat \<rightharpoonup> nat list"
  free :: nat
  codeWidth :: nat
  prev :: "nat list option"

definition decoderInit :: "nat \<Rightarrow> decoder" where
  "decoderInit minCodeSize =
     \<lparr>dict = (\<lambda>c. if c < 2 ^ minCodeSize then Some [c] else None),
      free = 2 ^ minCodeSize + 2,
      codeWidth = minCodeSize + 1,
      prev = None\<rparr>"

text \<open>The sequence a data code stands for.\<close>

definition decoderEntry :: "decoder \<Rightarrow> nat \<Rightarrow> nat list option" where
  "decoderEntry d code =
     (case dict d code of
        Some e \<Rightarrow> Some e
      | None \<Rightarrow>
          (case prev d of
             Some p \<Rightarrow> if code = free d then Some (p @ [hd p]) else None
           | None \<Rightarrow> None))"

text \<open>The decoder after the data code whose sequence is \<open>e\<close>.\<close>

definition decoderAdd :: "decoder \<Rightarrow> nat list \<Rightarrow> decoder" where
  "decoderAdd d e =
     (case prev d of
        None \<Rightarrow> d\<lparr>prev := Some e\<rparr>
      | Some p \<Rightarrow>
          if free d < 4096
          then d\<lparr>dict := (dict d)(free d \<mapsto> p @ [hd e]),
                 free := free d + 1,
                 codeWidth := (if free d + 1 = 2 ^ codeWidth d \<and> codeWidth d < 12
                           then codeWidth d + 1 else codeWidth d),
                 prev := Some e\<rparr>
          else d\<lparr>prev := Some e\<rparr>)"

text \<open>
  The decoder's run over the bits: for every code read, the code, the width at which it
  was read, and the indices it stands for (none for a control code).
\<close>

function decodeLoop :: "nat \<Rightarrow> decoder \<Rightarrow> bool list \<Rightarrow> (nat \<times> nat \<times> nat list) list option" where
  "decodeLoop minCodeSize d bs =
     (if codeWidth d = 0 \<or> length bs < codeWidth d then Some []
      else
        let code = readCode (take (codeWidth d) bs);
            rest = drop (codeWidth d) bs
        in if code = 2 ^ minCodeSize
           then map_option ((#) (code, codeWidth d, []))
                  (decodeLoop minCodeSize (decoderInit minCodeSize) rest)
           else if code = 2 ^ minCodeSize + 1 then Some [(code, codeWidth d, [])]
           else
             (case decoderEntry d code of
                None \<Rightarrow> None
              | Some e \<Rightarrow>
                  map_option ((#) (code, codeWidth d, e))
                    (decodeLoop minCodeSize (decoderAdd d e) rest)))"
  by pat_completeness auto
termination
  by (relation "measure (\<lambda>(m, d, bs). length bs)") auto

declare decodeLoop.simps [simp del]

definition decodeReads :: "nat \<Rightarrow> nat list \<Rightarrow> (nat \<times> nat \<times> nat list) list option" where
  "decodeReads minCodeSize bytes =
     decodeLoop minCodeSize (decoderInit minCodeSize) (bitsOf bytes)"

definition lzwDecode :: "nat \<Rightarrow> nat list \<Rightarrow> nat list option" where
  "lzwDecode minCodeSize bytes =
     map_option (\<lambda>evs. concat (map (\<lambda>(code, wd, e). e) evs)) (decodeReads minCodeSize bytes)"

section \<open>Median-cut quantisation (\<open>quantize\<close>)\<close>

text \<open>
  The numbers of \<open>quantize\<close> are JavaScript numbers. A read past the end of \<open>data\<close> gives
  \<open>undefined\<close>, which every operation applied to it here (\<open>+\<close>, \<open>-\<close>, \<open><\<close>, \<open>>\<close>, a store
  into a \<open>Uint8Array\<close>) treats as it treats \<open>NaN\<close>; both are \<open>NaN\<close> below. All other values
  are integers, exact as long as they stay below \<open>2 ^ 53\<close>.
\<close>

datatype jsnum = Num int | NaN

fun jsAdd :: "jsnum \<Rightarrow> jsnum \<Rightarrow> jsnum" where
  "jsAdd (Num a) (Num b) = Num (a + b)"
| "jsAdd _ _ = NaN"

fun jsSub :: "jsnum \<Rightarrow> jsnum \<Rightarrow> jsnum" where
  "jsSub (Num a) (Num b) = Num (a - b)"
| "jsSub _ _ = NaN"

fun jsMul :: "jsnum \<Rightarrow> jsnum \<Rightarrow> jsnum" where
  "jsMul (Num a) (Num b) = Num (a * b)"
| "jsMul _ _ = NaN"

fun jsLt :: "jsnum \<Rightarrow> jsnum \<Rightarrow> bool" where
  "jsLt (Num a) (Num b) = (a < b)"
| "jsLt _ _ = False"

text \<open>
  \<open>Math.round(r / n)\<close> for a positive integer \<open>n\<close>: the quotient rounded to the nearest
  integer, a half upwards. (The floating-point quotient rounds as the exact one does while
  \<open>n\<close> is below \<open>2 ^ 45\<close> and the quotient below 256.)
\<close>

fun jsRoundDiv :: "jsnum \<Rightarrow> nat \<Rightarrow> jsnum" where
  "jsRoundDiv (Num r) n = Num ((2 * r + int n) div (2 * int n))"
| "jsRoundDiv NaN n = NaN"

text \<open>The store of a number into a \<open>Uint8Array\<close>.\<close>

fun toUint8 :: "jsnum \<Rightarrow> nat" where
  "toUint8 (Num v) = nat (v mod 256)"
| "toUint8 NaN = 0"

record imageData =
  data :: "nat list"
  width :: nat
  height :: nat

type_synonym pixel = "jsnum \<times> jsnum \<times> jsnum"

text \<open>\<open>p[ch]\<close> for a three-element array \<open>p\<close> and \<open>ch\<close> in 0, 1, 2.\<close>

fun chan :: "nat \<Rightarrow> pixel \<Rightarrow> jsnum" where
  "chan ch (r, g, b) = (if ch = 0 then r else if ch = 1 then g else b)"

definition jsRead :: "nat list \<Rightarrow> nat \<Rightarrow> jsnum" where
  "jsRead xs i = (if i < length xs then Num (int (xs ! i)) else NaN)"

text \<open>\<open>[data[off], data[off + 1], data[off + 2]]\<close> with \<open>off = i * 4\<close>.\<close>

definition pixelAt :: "nat list \<Rightarrow> nat \<Rightarrow> pixel" where
  "pixelAt d i = (jsRead d (i * 4), jsRead d (i * 4 + 1), jsRead d (i * 4 + 2))"

text \<open>The average colour of a bucket (the branch \<open>depth === 0 || pixels.length === 0\<close>).\<close>

definition average :: "pixel list \<Rightarrow> pixel" where
  "average pixels =
     (let r = fold (\<lambda>p acc. jsAdd acc (chan 0 p)) pixels (Num 0);
          g = fold (\<lambda>p acc. jsAdd acc (chan 1 p)) pixels (Num 0);
          b = fold (\<lambda>p acc. jsAdd acc (chan 2 p)) pixels (Num 0);
          n = (if length pixels = 0 then 1 else length pixels)
      in (jsRoundDiv r n, jsRoundDiv g n, jsRoundDiv b n))"

text \<open>
  The running minimum and maximum of a channel, from 255 and 0: a comparison with \<open>NaN\<close>
  is false and leaves them as they are, so they are always numbers.
\<close>

definition minChan :: "nat \<Rightarrow> pixel list \<Rightarrow> int" where
  "minChan ch pixels =
     fold (\<lambda>p m. case chan ch p of Num v \<Rightarrow> if v < m then v else m | NaN \<Rightarrow> m) pixels 255"

definition maxChan :: "nat \<Rightarrow> pixel list \<Rightarrow> int" where
  "maxChan ch pixels =
     fold (\<lambda>p m. case chan ch p of Num v \<Rightarrow> if v > m then v else m | NaN \<Rightarrow> m) pixels 0"

text \<open>
  \<open>pixels.sort((a, b) => a[ch] - b[ch])\<close>. The sort of JavaScript is stable, and with this
  comparator on numbers its result is the one stable ascending order, which insertion from
  the left computes. (A comparator result \<open>NaN\<close> counts as 0; the language then leaves the
  order to the implementation, and the model keeps the insertion order.)
\<close>

definition cmpPositive :: "nat \<Rightarrow> pixel \<Rightarrow> pixel \<Rightarrow> bool" where
  "cmpPositive ch a b = jsLt (Num 0) (jsSub (chan ch a) (chan ch b))"

fun insertBy :: "nat \<Rightarrow> pixel \<Rightarrow> pixel list \<Rightarrow> pixel list" where
  "insertBy ch x [] = [x]"
| "insertBy ch x (y # ys) = (if cmpPositive ch y x then x # y # ys else y # insertBy ch x ys)"

definition sortBy :: "nat \<Rightarrow> pixel list \<Rightarrow> pixel list" where
  "sortBy ch pixels = foldl (\<lambda>acc x. insertBy ch x acc) [] pixels"

text \<open>
  The channel with the largest range, red before green before blue
  (\<open>rangeR >= rangeG && rangeR >= rangeB ? 0 : rangeG >= rangeB ? 1 : 2\<close>).
\<close>

definition widestChannel :: "pixel list \<Rightarrow> nat" where
  "widestChannel pixels =
     (let rangeR = maxChan 0 pixels - minChan 0 pixels;
          rangeG = maxChan 1 pixels - minChan 1 pixels;
          rangeB = maxChan 2 pixels - minChan 2 pixels
      in if rangeR \<ge> rangeG \<and> rangeR \<ge> rangeB then 0
         else if rangeG \<ge> rangeB then 1 else 2)"

fun medianCut :: "pixel list \<Rightarrow> nat \<Rightarrow> pixel list" where
  "medianCut pixels 0 = [average pixels]"
| "medianCut pixels (Suc depth) =
     (if length pixels = 0 then [average pixels]
      else
        let ch = widestChannel pixels;
            sorted = sortBy ch pixels;
            mid = length pixels div 2
        in medianCut (take mid sorted) depth @ medianCut (drop mid sorted) depth)"

text \<open>
  The inner loop \<open>for (c = 0; c < 256; c++)\<close> of the index assignment. \<open>bestDist\<close> is
  \<open>Infinity\<close> (\<open>None\<close>) until the first distance that is a number.
\<close>

definition dist :: "pixel \<Rightarrow> pixel \<Rightarrow> jsnum" where
  "dist p q =
     (let dr = jsSub (chan 0 p) (chan 0 q);
          dg = jsSub (chan 1 p) (chan 1 q);
          db = jsSub (chan 2 p) (chan 2 q)
      in jsAdd (jsAdd (jsMul dr dr) (jsMul dg dg)) (jsMul db db))"

definition nearestStep :: "pixel list \<Rightarrow> pixel \<Rightarrow> nat \<Rightarrow> nat \<times> int option \<Rightarrow> nat \<times> int option" where
  "nearestStep palette p c best =
     (case dist p (palette ! c) of
        NaN \<Rightarrow> best
      | Num d \<Rightarrow>
          (case snd best of
             None \<Rightarrow> (c, Some d)
           | Some bestDist \<Rightarrow> if d < bestDist then (c, Some d) else best))"

definition nearest :: "pixel list \<Rightarrow> pixel \<Rightarrow> nat" where
  "nearest palette p = fst (fold (nearestStep palette p) [0..<256] (0, None))"

record quantized =
  palette :: "pixel list"
  indices :: "nat list"

text \<open>
  The sampling loop \<open>for (i = 0; i < pixelCount; i += sampleStep)\<close> of \<open>quantize\<close> visits
  the multiples of \<open>sampleStep\<close> below \<open>pixelCount\<close>.
\<close>

definition samplesOf :: "imageData \<Rightarrow> pixel list" where
  "samplesOf img =
     (let pixelCount = width img * height img;
          sampleStep = (if pixelCount > 100000 then pixelCount div 50000 else 1)
      in map (pixelAt (data img)) (filter (\<lambda>i. i mod sampleStep = 0) [0..<pixelCount]))"

text \<open>
  \<open>quantize(imageData)\<close>. After the padding loop and \<open>palette.length = 256\<close> the palette has
  256 entries, so \<open>palette[c]\<close> is an entry for every \<open>c\<close> below 256. The indices are stored
  in a \<open>Uint8Array\<close>; they are below 256, and the store keeps them.
\<close>

definition black :: pixel where
  "black = (Num 0, Num 0, Num 0)"

definition padPalette :: "pixel list \<Rightarrow> pixel list" where
  "padPalette pal = take 256 (pal @ replicate (256 - length pal) black)"

definition quantize :: "imageData \<Rightarrow> quantized" where
  "quantize img =
     (let pixelCount = width img * height img;
          pal = padPalette (medianCut (samplesOf img) 8)
      in \<lparr>palette = pal,
          indices = map (\<lambda>i. nearest pal (pixelAt (data img) i)) [0..<pixelCount]\<rparr>)"

section \<open>The GIF container (\<open>buildGif\<close>)\<close>

definition le16 :: "nat \<Rightarrow> nat list" where
  "le16 v = [v AND 255, drop_bit 8 v AND 255]"

text \<open>
  The only operation of \<open>buildGif\<close> that can throw is \<open>palette[i][0]\<close>, a \<open>TypeError\<close> when
  \<open>palette[i]\<close> is \<open>undefined\<close>.
\<close>

datatype error = TypeError

definition gctBytes :: "pixel list \<Rightarrow> error + nat list" where
  "gctBytes pal =
     (if length pal < 256 then Inl TypeError
      else Inr (concat (map (\<lambda>i. [toUint8 (chan 0 (pal ! i)),
                                      toUint8 (chan 1 (pal ! i)),
                                      toUint8 (chan 2 (pal ! i))]) [0..<256])))"

text \<open>The sub-block loop \<open>while (offset < compressed.length)\<close>: the parts it pushes.\<close>

function subBlocks :: "nat list \<Rightarrow> nat \<Rightarrow> nat list list" where
  "subBlocks compressed offset =
     (if offset < length compressed
      then
        let chunkSize = min 255 (length compressed - offset)
        in [chunkSize] # take chunkSize (drop offset compressed)
             # subBlocks compressed (offset + chunkSize)
      else [])"
  by pat_completeness auto
termination
  by (relation "measure (\<lambda>(compressed, offset). length compressed - offset)") auto

declare subBlocks.simps [simp del]

text \<open>\<open>buildGif(imageData)\<close>; the \<open>Blob\<close> it returns is the concatenation of its parts.\<close>

definition buildGif :: "imageData \<Rightarrow> error + nat list" where
  "buildGif img =
     (let q = quantize img;
          minCodeSize = 8
      in case gctBytes (palette q) of
           Inl e \<Rightarrow> Inl e
         | Inr gct \<Rightarrow>
             Inr (concat
               ([[0x47, 0x49, 0x46, 0x38, 0x39, 0x61],
                 le16 (width img) @ le16 (height img) @ [0xf7, 0x00, 0x00],
                 gct,
                 [0x21, 0xf9, 0x04, 0x00, 0x00, 0x00, 0x00, 0x00],
                 [0x2c] @ le16 0 @ le16 0 @ le16 (width img) @ le16 (height img) @ [0x00],
                 [minCodeSize]]
                @ subBlocks (lzwEncode (indices q) minCodeSize) 0
                @ [[0x00], [0x3b]])))"

section \<open>The arrays the core shares: an explicit store\<close>

text \<open>
  For what the core writes to, the arrays that pass between the caller and the functions
  of the core are placed in a store: a list of arrays, an array's address being its
  position, and a new array going to the end. These are the caller's \<open>data\<close>; the
  \<open>samples\<close>, the slices and the results of \<open>medianCut\<close>; the \<open>palette\<close> and the \<open>indices\<close> of
  \<open>quantize\<close>; the result of \<open>lzwEncode\<close>; and the bytes of the \<open>Blob\<close>. The statements that
  change an array in place are writes to the store: \<open>pixels.sort\<close> in \<open>medianCut\<close> (it sorts
  the array it was given), \<open>samples.push\<close>, \<open>palette.push\<close> and \<open>palette.length = 256\<close>, and
  \<open>indices[i] = bestIdx\<close>. The three-element arrays \<open>[r, g, b]\<close> are never written to after
  their creation and stay values, as do the arrays and the \<open>Map\<close> that one function creates
  and keeps to itself (\<open>table\<close> and \<open>output\<close> in \<open>lzwEncode\<close>, \<open>parts\<close> and \<open>gct\<close> in \<open>buildGif\<close>).
\<close>

datatype obj = Nums "nat list" | Pixels "pixel list"

type_synonym store = "obj list"

definition alloc :: "obj \<Rightarrow> store \<Rightarrow> nat \<times> store" where
  "alloc x h = (length h, h @ [x])"

definition numsAt :: "store \<Rightarrow> nat \<Rightarrow> nat list" where
  "numsAt h a = (if a < length h then (case h ! a of Nums xs \<Rightarrow> xs | Pixels _ \<Rightarrow> []) else [])"

definition pixelsAt :: "store \<Rightarrow> nat \<Rightarrow> pixel list" where
  "pixelsAt h a = (if a < length h then (case h ! a of Pixels ps \<Rightarrow> ps | Nums _ \<Rightarrow> []) else [])"

text \<open>\<open>medianCut(pixels, depth)\<close> on the array at address \<open>pa\<close>; it returns the address of its result.\<close>

fun medianCutH :: "nat \<Rightarrow> nat \<Rightarrow> store \<Rightarrow> nat \<times> store" where
  "medianCutH 0 pa h = alloc (Pixels [average (pixelsAt h pa)]) h"
| "medianCutH (Suc depth) pa h =
     (let pixels = pixelsAt h pa
      in if length pixels = 0 then alloc (Pixels [average pixels]) h
         else
           let ch = widestChannel pixels;
               h1 = h[pa := Pixels (sortBy ch pixels)];
               mid = length (pixelsAt h1 pa) div 2;
               (lo, h2) = alloc (Pixels (take mid (pixelsAt h1 pa))) h1;
               (ra, h3) = medianCutH depth lo h2;
               (hi, h4) = alloc (Pixels (drop mid (pixelsAt h3 pa))) h3;
               (rb, h5) = medianCutH depth hi h4
           in alloc (Pixels (pixelsAt h5 ra @ pixelsAt h5 rb)) h5)"

text \<open>
  \<open>quantize(imageData)\<close> for the \<open>data\<close> at address \<open>da\<close>; it returns the addresses of the
  palette and of the indices.
\<close>

definition quantizeH :: "nat \<Rightarrow> nat \<Rightarrow> nat \<Rightarrow> store \<Rightarrow> (nat \<times> nat) \<times> store" where
  "quantizeH da wd ht h =
     (let img = \<lparr>data = numsAt h da, width = wd, height = ht\<rparr>;
          pixelCount = wd * ht;
          (sa, h1) = alloc (Pixels []) h;
          h2 = h1[sa := Pixels (samplesOf img)];
          (pa, h3) = medianCutH 8 sa h2;
          h4 = h3[pa := Pixels (padPalette (pixelsAt h3 pa))];
          (ia, h5) = alloc (Nums (replicate pixelCount 0)) h4;
          h6 = h5[ia := Nums (map (\<lambda>i. nearest (pixelsAt h5 pa) (pixelAt (numsAt h5 da) i))
                                [0..<pixelCount])]
      in ((pa, ia), h6))"

text \<open>\<open>lzwEncode(indices, minCodeSize)\<close> for the indices at address \<open>ia\<close>: a new array.\<close>

definition lzwEncodeH :: "nat \<Rightarrow> nat \<Rightarrow> store \<Rightarrow> nat \<times> store" where
  "lzwEncodeH ia minCodeSize h = alloc (Nums (lzwEncode (numsAt h ia) minCodeSize)) h"

text \<open>\<open>buildGif(imageData)\<close>: the address of the bytes of the \<open>Blob\<close>, or the error.\<close>

definition buildGifH :: "nat \<Rightarrow> nat \<Rightarrow> nat \<Rightarrow> store \<Rightarrow> (error + nat) \<times> store" where
  "buildGifH da wd ht h =
     (let ((pa, ia), h1) = quantizeH da wd ht h;
          minCodeSize = 8
      in case gctBytes (pixelsAt h1 pa) of
           Inl e \<Rightarrow> (Inl e, h1)
         | Inr gct \<Rightarrow>
             let (ca, h2) = lzwEncodeH ia minCodeSize h1;
                 (ba, h3) = alloc (Nums (concat
                   ([[0x47, 0x49, 0x46, 0x38, 0x39, 0x61],
                     le16 wd @ le16 ht @ [0xf7, 0x00, 0x00],
                     gct,
                     [0x21, 0xf9, 0x04, 0x00, 0x00, 0x00, 0x00, 0x00],
                     [0x2c] @ le16 0 @ le16 0 @ le16 wd @ le16 ht @ [0x00],
                     [minCodeSize]]
                    @ subBlocks (numsAt h2 ca) 0
                    @ [[0x00], [0x3b]]))) h2
             in (Inr ba, h3))"

section \<open>Notions used in the proofs\<close>

subsection \<open>Keys as sequences of indices\<close>

text \<open>
  Every key the program forms is \<open>String(i)\<close> for an index \<open>i\<close>, or \<open>w + ',' + String(k)\<close> for
  a key \<open>w\<close> and an index \<open>k\<close>, or the string \<open>"undefined"\<close>: the decimal numerals of a
  sequence of indices joined by commas, \<open>keyString\<close> of the sequence (with \<open>"undefined"\<close> for
  the empty one). The proofs follow the run of \<open>lzwEncode\<close> on these sequences: the
  definitions below are those of the program with a sequence in the place of its string.
  \<open>keyString\<close> is one-to-one, and \<open>keysRel\<close> relates the variables of the two runs.
\<close>

type_synonym key = "nat list"

fun keyString :: "key \<Rightarrow> string" where
  "keyString [] = ''undefined''"
| "keyString [k] = jsString k"
| "keyString (k # ks) = jsString k @ '','' @ keyString ks"

definition isDigit :: "char \<Rightarrow> bool" where
  "isDigit c \<longleftrightarrow> 48 \<le> (of_char c :: nat) \<and> (of_char c :: nat) < 58"

definition initTableA :: "nat \<Rightarrow> (key \<rightharpoonup> nat)" where
  "initTableA clearCode = fold (\<lambda>i t. t([i] \<mapsto> i)) [0..<clearCode] Map.empty"

definition lzwStepA :: "nat \<Rightarrow> nat \<Rightarrow> key lzw \<Rightarrow> key lzw" where
  "lzwStepA minCodeSize k s =
     (let clearCode = push_bit minCodeSize 1;
          eoiCode = clearCode + 1;
          wk = w s @ [k]
      in if table s wk \<noteq> None then s\<lparr>w := wk\<rparr>
         else
           let b1 = writeBits (table s (w s)) (codeSize s) (bits s)
           in if nextCode s < maxTableSize
              then
                let nextCode' = nextCode s + 1
                in s\<lparr>table := (table s)(wk \<mapsto> nextCode s),
                     nextCode := nextCode',
                     codeSize := (if nextCode' > push_bit (codeSize s) 1 \<and> codeSize s < 12
                                  then codeSize s + 1 else codeSize s),
                     w := [k],
                     bits := b1\<rparr>
              else
                s\<lparr>table := initTableA clearCode,
                    nextCode := eoiCode + 1,
                    codeSize := minCodeSize + 1,
                    w := [k],
                    bits := writeBits (Some clearCode) (codeSize s) b1\<rparr>)"

fun lzwLoopA :: "nat \<Rightarrow> nat list \<Rightarrow> key lzw \<Rightarrow> key lzw" where
  "lzwLoopA minCodeSize [] s = s"
| "lzwLoopA minCodeSize (k # ks) s = lzwLoopA minCodeSize ks (lzwStepA minCodeSize k s)"

definition lzwInitA :: "nat list \<Rightarrow> nat \<Rightarrow> key lzw" where
  "lzwInitA xs minCodeSize =
     (let clearCode = push_bit minCodeSize 1;
          eoiCode = clearCode + 1;
          codeSize = minCodeSize + 1
      in \<lparr>table = initTableA clearCode,
          nextCode = eoiCode + 1,
          codeSize = codeSize,
          w = (case jsIndex xs 0 of None \<Rightarrow> [] | Some i0 \<Rightarrow> [i0]),
          bits = writeBits (Some clearCode) codeSize \<lparr>outBytes = [], buffer = 0, bufferLen = 0\<rparr>\<rparr>)"

definition lzwFinishA :: "nat \<Rightarrow> key lzw \<Rightarrow> nat list" where
  "lzwFinishA minCodeSize s =
     (let eoiCode = push_bit minCodeSize 1 + 1;
          b1 = writeBits (table s (w s)) (codeSize s) (bits s);
          b2 = writeBits (Some eoiCode) (codeSize s) b1
      in if bufferLen b2 > 0 then outBytes b2 @ [buffer b2 AND 255] else outBytes b2)"

definition lzwEncodeA :: "nat list \<Rightarrow> nat \<Rightarrow> nat list" where
  "lzwEncodeA xs minCodeSize =
     lzwFinishA minCodeSize (lzwLoopA minCodeSize (tl xs) (lzwInitA xs minCodeSize))"

definition stepCodesA :: "nat \<Rightarrow> nat \<Rightarrow> key lzw \<Rightarrow> (nat option \<times> nat) list" where
  "stepCodesA minCodeSize k s =
     (if table s (w s @ [k]) \<noteq> None then []
      else if nextCode s < maxTableSize then [(table s (w s), codeSize s)]
      else [(table s (w s), codeSize s), (Some (push_bit minCodeSize 1), codeSize s)])"

fun loopCodesA :: "nat \<Rightarrow> nat list \<Rightarrow> key lzw \<Rightarrow> (nat option \<times> nat) list" where
  "loopCodesA minCodeSize [] s = []"
| "loopCodesA minCodeSize (k # ks) s =
     stepCodesA minCodeSize k s @ loopCodesA minCodeSize ks (lzwStepA minCodeSize k s)"

definition finishCodesA :: "nat \<Rightarrow> key lzw \<Rightarrow> (nat option \<times> nat) list" where
  "finishCodesA minCodeSize s =
     [(table s (w s), codeSize s), (Some (push_bit minCodeSize 1 + 1), codeSize s)]"

definition lzwCodesA :: "nat list \<Rightarrow> nat \<Rightarrow> (nat option \<times> nat) list" where
  "lzwCodesA xs minCodeSize =
     (Some (push_bit minCodeSize 1), minCodeSize + 1)
       # loopCodesA minCodeSize (tl xs) (lzwInitA xs minCodeSize)
       @ finishCodesA minCodeSize (lzwLoopA minCodeSize (tl xs) (lzwInitA xs minCodeSize))"

definition keysRel :: "string lzw \<Rightarrow> key lzw \<Rightarrow> bool" where
  "keysRel s t \<longleftrightarrow>
     nextCode s = nextCode t \<and> codeSize s = codeSize t \<and> bits s = bits t \<and>
     w s = keyString (w t) \<and>
     (\<forall>key. table s (keyString key) = table t key) \<and>
     (\<forall>x. x \<notin> range keyString \<longrightarrow> table s x = None)"

subsection \<open>Bits, invariants and the decoder's view\<close>

text \<open>
  The bits a bit buffer stands for: those of the bytes already pushed, then the
  \<open>bufferLen\<close> pending bits of \<open>buffer\<close>. Between two calls of \<open>writeBits\<close> fewer than 8 bits
  are pending and \<open>buffer\<close> has no bit beyond them.
\<close>

definition bitsIn :: "bitbuf \<Rightarrow> bool list" where
  "bitsIn b = bitsOf (outBytes b) @ codeBits (bufferLen b) (buffer b)"

definition bufInv :: "bitbuf \<Rightarrow> bool" where
  "bufInv b \<longleftrightarrow> bufferLen b < 8 \<and> buffer b < 2 ^ bufferLen b"

text \<open>
  What holds of the encoder's variables throughout a run with \<open>minCodeSize = 8\<close> on indices
  below 256: the next code is between 258 and 4096 and within reach of the code width, the
  table holds every single index and only codes that are in use and are no control code,
  and the pending \<open>w\<close> is a key.
\<close>

definition encInv :: "key lzw \<Rightarrow> bool" where
  "encInv s \<longleftrightarrow>
     258 \<le> nextCode s \<and> nextCode s \<le> 4096 \<and> 9 \<le> codeSize s \<and> codeSize s \<le> 12 \<and>
     nextCode s \<le> 2 ^ codeSize s \<and>
     (\<forall>key c. table s key = Some c \<longrightarrow> (c < 256 \<or> 258 \<le> c) \<and> c < nextCode s \<and> key \<noteq> []) \<and>
     (\<forall>i<256. table s [i] = Some i) \<and>
     w s \<in> dom (table s)"

text \<open>
  The encoder and the decoder in step: the decoder has read every code written so far.
  Its table then lacks exactly the encoder's newest entry, which extends the sequence the
  decoder read last by the first index of the encoder's pending \<open>w\<close>.
\<close>

definition sim :: "key lzw \<Rightarrow> decoder \<Rightarrow> bool" where
  "sim s d \<longleftrightarrow>
     encInv s \<and> codeWidth d = codeSize s \<and>
     (\<forall>c\<ge>free d. dict d c = None) \<and>
     (case prev d of
        None \<Rightarrow> nextCode s = 258 \<and> free d = 258 \<and>
                (\<forall>key c. table s key = Some c \<longrightarrow> dict d c = Some key)
      | Some p \<Rightarrow> p \<noteq> [] \<and> free d + 1 = nextCode s \<and>
                (\<forall>key. table s key = Some (free d) \<longleftrightarrow> key = p @ [hd (w s)]) \<and>
                (\<forall>key c. table s key = Some c \<and> c \<noteq> free d \<longrightarrow> dict d c = Some key))"

text \<open>The indices and the codes of a decoder run.\<close>

definition evText :: "(nat \<times> nat \<times> nat list) list \<Rightarrow> nat list" where
  "evText evs = concat (map (\<lambda>(code, wd, e). e) evs)"

definition evCodes :: "(nat \<times> nat \<times> nat list) list \<Rightarrow> (nat option \<times> nat) list" where
  "evCodes evs = map (\<lambda>(code, wd, e). (Some code, wd)) evs"

text \<open>
  The encoder's variables after the main loop, for \<open>minCodeSize = 8\<close>; the width at which
  the decoder reads the code that follows the last data code; and what the decoder reads
  there, given \<open>p\<close> padding bits after the End-of-Information code.
\<close>

definition lzwFinalA :: "nat list \<Rightarrow> key lzw" where
  "lzwFinalA xs = lzwLoopA 8 (tl xs) (lzwInitA xs 8)"

definition eoiReadWidth :: "key lzw \<Rightarrow> nat" where
  "eoiReadWidth s =
     (if nextCode s = 2 ^ codeSize s \<and> codeSize s < 12 then codeSize s + 1 else codeSize s)"

definition eoiEvents :: "key lzw \<Rightarrow> nat \<Rightarrow> (nat \<times> nat \<times> nat list) list" where
  "eoiEvents s p =
     (if eoiReadWidth s = codeSize s then [(257, codeSize s, [])]
      else if p = 0 then [] else [(257, codeSize s + 1, [])])"

text \<open>
  The encoder's variables before it reads index \<open>j\<close> of the buffer \<open>0, 1, 2, ...\<close>: every pair
  of neighbours is new, so every iteration so far has written one code and added one key.
\<close>

definition climbing :: "nat \<Rightarrow> key lzw \<Rightarrow> bool" where
  "climbing j s \<longleftrightarrow>
     w s = [j - 1] \<and> nextCode s = 257 + j \<and> codeSize s = 9 \<and>
     (\<forall>key. table s key \<noteq> None \<longrightarrow> length key = 1 \<or> (\<exists>i. key = [i, Suc i] \<and> Suc i < j))"



text \<open>
  A store after a call that may have written to the array at \<open>pa\<close>: it has all the old
  addresses, and what they hold is what they held, but for \<open>pa\<close>.
\<close>

definition keeps :: "store \<Rightarrow> nat \<Rightarrow> store \<Rightarrow> bool" where
  "keeps h pa h' \<longleftrightarrow> length h \<le> length h' \<and> (\<forall>a<length h. a \<noteq> pa \<longrightarrow> h' ! a = h ! a)"

section \<open>Bit packing\<close>

lemma length_codeBits [simp]: "length (codeBits n c) = n"
  by (simp add: codeBits_def)

lemma bitsOf_append [simp]: "bitsOf (xs @ ys) = bitsOf xs @ bitsOf ys"
  by (simp add: bitsOf_def)

lemma bitsOf_single: "bitsOf [x] = codeBits 8 x"
  by (simp add: bitsOf_def bitsOfByte_def codeBits_def)

lemma bit_above: "(x::nat) < 2 ^ n \<Longrightarrow> n \<le> i \<Longrightarrow> \<not> bit x i"
proof -
  assume a: "x < 2 ^ n" "n \<le> i"
  then have "take_bit n x = x" by (simp add: take_bit_nat_eq_self_iff)
  then have "bit x i = bit (take_bit n x) i" by simp
  also have "\<dots> = False" using a by (simp add: bit_take_bit_iff)
  finally show ?thesis by simp
qed

lemma codeBits_split:
  "8 \<le> n \<Longrightarrow> codeBits 8 (x AND 255) @ codeBits (n - 8) (drop_bit 8 x) = codeBits n x"
proof (rule nth_equalityI)
  assume n: "8 \<le> n"
  show "length (codeBits 8 (x AND 255) @ codeBits (n - 8) (drop_bit 8 x)) = length (codeBits n x)"
    using n by simp
  fix i assume "i < length (codeBits 8 (x AND 255) @ codeBits (n - 8) (drop_bit 8 x))"
  then have i: "i < n" using n by simp
  have m: "(255::nat) = mask 8" by (simp add: mask_eq_exp_minus_1)
  show "(codeBits 8 (x AND 255) @ codeBits (n - 8) (drop_bit 8 x)) ! i = codeBits n x ! i"
    using i n
    by (auto simp: nth_append codeBits_def m bit_and_iff bit_mask_iff bit_drop_bit_eq)
qed

lemma codeBits_or:
  "x < 2 ^ n \<Longrightarrow> codeBits (n + k) (x OR push_bit n c) = codeBits n x @ codeBits k c"
proof (rule nth_equalityI)
  assume x: "x < 2 ^ n"
  show "length (codeBits (n + k) (x OR push_bit n c)) = length (codeBits n x @ codeBits k c)"
    by simp
  fix i assume "i < length (codeBits (n + k) (x OR push_bit n c))"
  then have i: "i < n + k" by simp
  show "codeBits (n + k) (x OR push_bit n c) ! i = (codeBits n x @ codeBits k c) ! i"
    using i bit_above [OF x]
    by (auto simp: nth_append codeBits_def bit_or_iff bit_push_bit_iff)
qed

lemma or_bound:
  assumes "(x::nat) < 2 ^ n" "c < 2 ^ k"
  shows "x OR push_bit n c < 2 ^ (n + k)"
proof -
  have "take_bit (n + k) (x OR push_bit n c) = x OR push_bit n c"
  proof (rule bit_eqI)
    fix i
    show "bit (take_bit (n + k) (x OR push_bit n c)) i = bit (x OR push_bit n c) i"
      using bit_above [OF assms(1)] bit_above [OF assms(2)]
      by (auto simp: bit_take_bit_iff bit_or_iff bit_push_bit_iff)
  qed
  then show ?thesis
    by (metis take_bit_nat_less_exp)
qed

lemma flushBytes_bits:
  "buffer b < 2 ^ bufferLen b \<Longrightarrow>
   bitsIn (flushBytes b) = bitsIn b \<and> bufferLen (flushBytes b) < 8 \<and>
   buffer (flushBytes b) < 2 ^ bufferLen (flushBytes b)"
proof (induction b rule: flushBytes.induct)
  case (1 b)
  show ?case
  proof (cases "8 \<le> bufferLen b")
    case True
    let ?b' = "\<lparr>outBytes = outBytes b @ [buffer b AND 255], buffer = drop_bit 8 (buffer b),
                bufferLen = bufferLen b - 8\<rparr>"
    have lt: "buffer ?b' < 2 ^ bufferLen ?b'"
    proof -
      have "buffer b < 2 ^ (8 + (bufferLen b - 8))" using True "1.prems" by simp
      then have "buffer b div 2 ^ 8 < 2 ^ (bufferLen b - 8)"
        by (simp only: power_add less_mult_imp_div_less mult.commute)
      then show ?thesis by (simp add: drop_bit_eq_div)
    qed
    have eq: "bitsIn ?b' = bitsIn b"
      using codeBits_split [OF True, of "buffer b"] by (simp add: bitsIn_def bitsOf_single)
    have f: "flushBytes b = flushBytes ?b'"
      using True by (subst flushBytes.simps) simp
    show ?thesis using "1.IH" [OF True lt] eq f by simp
  next
    case False
    then have "flushBytes b = b" by (subst flushBytes.simps) simp
    with False "1.prems" show ?thesis by simp
  qed
qed

lemma writeBits_bits:
  assumes "bufInv b" "toInt c < 2 ^ n"
  shows "bitsIn (writeBits c n b) = bitsIn b @ codeBits n (toInt c)"
    and "bufInv (writeBits c n b)"
proof -
  let ?b' = "b\<lparr>buffer := buffer b OR push_bit (bufferLen b) (toInt c), bufferLen := bufferLen b + n\<rparr>"
  have lt: "buffer ?b' < 2 ^ bufferLen ?b'"
    using assms or_bound [of "buffer b" "bufferLen b" "toInt c" n] by (simp add: bufInv_def)
  have eq: "bitsIn ?b' = bitsIn b @ codeBits n (toInt c)"
    using assms codeBits_or [of "buffer b" "bufferLen b" n "toInt c"]
    by (simp add: bitsIn_def bufInv_def)
  from flushBytes_bits [OF lt] eq
  show "bitsIn (writeBits c n b) = bitsIn b @ codeBits n (toInt c)"
    and "bufInv (writeBits c n b)"
    by (simp_all add: writeBits_def bufInv_def)
qed

section \<open>The encoder's invariant\<close>

lemma initTableA_apply:
  "initTableA c key = (case key of [i] \<Rightarrow> if i < c then Some i else None | _ \<Rightarrow> None)"
proof (induction c)
  case 0
  show ?case by (simp add: initTableA_def split: list.splits)
next
  case (Suc c)
  have "initTableA (Suc c) = (initTableA c)([c] \<mapsto> c)"
    by (simp add: initTableA_def)
  with Suc show ?case by (auto split: list.splits)
qed

lemma initTableA_Some: "initTableA c key = Some v \<longleftrightarrow> key = [v] \<and> v < c"
  by (auto simp: initTableA_apply split: list.splits if_splits)

lemma pow_ge: "9 \<le> (n::nat) \<Longrightarrow> (512::nat) \<le> 2 ^ n"
proof -
  assume "9 \<le> n"
  then have "(2::nat) ^ 9 \<le> 2 ^ n" by (rule power_increasing) simp
  then show ?thesis by simp
qed

lemma pow_le: "(n::nat) \<le> 12 \<Longrightarrow> (2::nat) ^ n \<le> 4096"
proof -
  assume "n \<le> 12"
  then have "(2::nat) ^ n \<le> 2 ^ 12" by (rule power_increasing) simp
  then show ?thesis by simp
qed

lemma encInv_init:
  assumes "i0 < 256"
  shows "encInv (lzwInitA (i0 # rest) 8)"
  using assms by (auto simp: encInv_def lzwInitA_def jsIndex_def Let_def initTableA_Some)

lemma encInv_step:
  assumes "encInv s" "k < 256"
  shows "encInv (lzwStepA 8 k s)"
proof (cases "table s (w s @ [k]) = None")
  case False
  with assms show ?thesis by (auto simp: lzwStepA_def encInv_def Let_def)
next
  case miss: True
  show ?thesis
  proof (cases "nextCode s < 4096")
    case True
    have b: "nextCode s + 1 \<le> 2 ^ (if nextCode s + 1 > 2 ^ codeSize s \<and> codeSize s < 12
         then codeSize s + 1 else codeSize s)"
    proof (cases "codeSize s < 12")
      case True
      with assms(1) show ?thesis by (auto simp: encInv_def)
    next
      case False
      with assms(1) have "codeSize s = 12" by (simp add: encInv_def)
      with True show ?thesis by simp
    qed
    from assms miss True b show ?thesis
      apply (simp add: lzwStepA_def encInv_def Let_def maxTableSize_def)
      apply (intro conjI impI allI)
      apply (auto simp: less_Suc_eq)
      done
  next
    case False
    with miss assms show ?thesis
      by (auto simp: lzwStepA_def encInv_def Let_def maxTableSize_def initTableA_Some)
  qed
qed

section \<open>The bits of a run are the bits of its codes\<close>

lemma codesBits_simps [simp]:
  "codesBits [] = []"
  "codesBits ((c, n) # cs) = codeBits n (toInt c) @ codesBits cs"
  "codesBits (xs @ ys) = codesBits xs @ codesBits ys"
  by (simp_all add: codesBits_def)

lemma table_code_lt:
  assumes "encInv s"
  shows "toInt (table s key) < 2 ^ codeSize s"
proof (cases "table s key")
  case None
  then show ?thesis by (simp add: toInt_def)
next
  case (Some c)
  with assms have "c < nextCode s" "nextCode s \<le> 2 ^ codeSize s"
    by (auto simp: encInv_def)
  with Some show ?thesis by (simp add: toInt_def)
qed

lemma clear_lt: "encInv s \<Longrightarrow> (256::nat) < 2 ^ codeSize s" "encInv s \<Longrightarrow> (257::nat) < 2 ^ codeSize s"
  using pow_ge [of "codeSize s"] by (auto simp: encInv_def)

lemma step_bits:
  assumes "encInv s" "bufInv (bits s)"
  shows "bitsIn (bits (lzwStepA 8 k s)) = bitsIn (bits s) @ codesBits (stepCodesA 8 k s)"
    and "bufInv (bits (lzwStepA 8 k s))"
proof -
  let ?b1 = "writeBits (table s (w s)) (codeSize s) (bits s)"
  note w1 = writeBits_bits [OF assms(2) table_code_lt [OF assms(1), of "w s"]]
  have c: "toInt (Some 256) < 2 ^ codeSize s" using clear_lt [OF assms(1)] by (simp add: toInt_def)
  note w2 = writeBits_bits [OF w1(2) c]
  show "bitsIn (bits (lzwStepA 8 k s)) = bitsIn (bits s) @ codesBits (stepCodesA 8 k s)"
    using w1 w2 by (simp add: lzwStepA_def stepCodesA_def Let_def)
  show "bufInv (bits (lzwStepA 8 k s))"
    using w1 w2 assms(2) by (simp add: lzwStepA_def Let_def)
qed

lemma loop_bits:
  assumes "encInv s" "bufInv (bits s)" "\<forall>k\<in>set ks. k < 256"
  shows "bitsIn (bits (lzwLoopA 8 ks s)) = bitsIn (bits s) @ codesBits (loopCodesA 8 ks s) \<and>
         bufInv (bits (lzwLoopA 8 ks s)) \<and> encInv (lzwLoopA 8 ks s)"
  using assms
proof (induction ks arbitrary: s)
  case Nil
  then show ?case by simp
next
  case (Cons k ks)
  have e: "encInv (lzwStepA 8 k s)" using Cons.prems by (simp add: encInv_step)
  note sb = step_bits [OF Cons.prems(1,2), of k]
  from Cons.IH [OF e sb(2)] Cons.prems(3) sb(1) show ?case by simp
qed

lemma codeBits_pad:
  assumes "x < 2 ^ n" "n \<le> m"
  shows "codeBits m x = codeBits n x @ replicate (m - n) False"
proof (rule nth_equalityI)
  show "length (codeBits m x) = length (codeBits n x @ replicate (m - n) False)"
    using assms by simp
  fix i assume "i < length (codeBits m x)"
  then have "i < m" by simp
  then show "codeBits m x ! i = (codeBits n x @ replicate (m - n) False) ! i"
    using bit_above [OF assms(1)] by (auto simp: nth_append codeBits_def)
qed

lemma finish_bits:
  assumes "encInv s" "bufInv (bits s)"
  shows "\<exists>p<8. bitsOf (lzwFinishA 8 s) = bitsIn (bits s) @ codesBits (finishCodesA 8 s) @ replicate p False"
proof -
  let ?b1 = "writeBits (table s (w s)) (codeSize s) (bits s)"
  let ?b2 = "writeBits (Some 257) (codeSize s) ?b1"
  note w1 = writeBits_bits [OF assms(2) table_code_lt [OF assms(1), of "w s"]]
  have c: "toInt (Some 257) < 2 ^ codeSize s" using clear_lt [OF assms(1)] by (simp add: toInt_def)
  note w2 = writeBits_bits [OF w1(2) c]
  have b2: "bitsIn ?b2 = bitsIn (bits s) @ codesBits (finishCodesA 8 s)"
    using w1 w2 by (simp add: finishCodesA_def)
  have inv: "bufferLen ?b2 < 8" "buffer ?b2 < 2 ^ bufferLen ?b2"
    using w2(2) by (simp_all add: bufInv_def)
  show ?thesis
  proof (cases "bufferLen ?b2 > 0")
    case True
    have m: "(255::nat) = mask 8" by (simp add: mask_eq_exp_minus_1)
    have "buffer ?b2 < 2 ^ 8"
      using inv by (meson less_imp_le_nat less_le_trans one_le_numeral power_increasing)
    then have "buffer ?b2 AND 255 = buffer ?b2"
      by (simp add: m take_bit_eq_mask [symmetric] take_bit_nat_eq_self_iff)
    then have "bitsOf (lzwFinishA 8 s) = bitsOf (outBytes ?b2) @ codeBits 8 (buffer ?b2)"
      using True by (simp add: lzwFinishA_def Let_def bitsOf_single)
    also have "\<dots> = bitsIn ?b2 @ replicate (8 - bufferLen ?b2) False"
      using codeBits_pad [OF inv(2), of 8] inv(1) by (simp add: bitsIn_def)
    finally show ?thesis using b2 True by (intro exI [of _ "8 - bufferLen ?b2"]) simp
  next
    case False
    then have "bitsOf (lzwFinishA 8 s) = bitsIn ?b2"
      by (simp add: lzwFinishA_def Let_def bitsIn_def codeBits_def)
    then show ?thesis using b2 by (intro exI [of _ 0]) simp
  qed
qed

lemma bufInv_init: "bufInv (bits (lzwInitA xs 8))" "bitsIn (bits (lzwInitA xs 8)) = codeBits 9 256"
proof -
  let ?e = "\<lparr>outBytes = [], buffer = 0, bufferLen = 0\<rparr>"
  have e: "bufInv ?e" by (simp add: bufInv_def)
  have c: "toInt (Some 256) < 2 ^ 9" by (simp add: toInt_def)
  note w = writeBits_bits [OF e c]
  show "bufInv (bits (lzwInitA xs 8))" using w(2) by (simp add: lzwInitA_def jsIndex_def)
  show "bitsIn (bits (lzwInitA xs 8)) = codeBits 9 256"
    using w(1) by (simp add: lzwInitA_def jsIndex_def bitsIn_def bitsOf_def codeBits_def toInt_def)
qed

lemma lzwEncodeA_bits:
  assumes "xs \<noteq> []" "\<forall>k\<in>set xs. k < 256"
  shows "\<exists>p<8. bitsOf (lzwEncodeA xs 8) = codesBits (lzwCodesA xs 8) @ replicate p False"
proof -
  obtain i0 rest where xs: "xs = i0 # rest" using assms(1) by (cases xs) auto
  have e: "encInv (lzwInitA xs 8)" using assms(2) xs by (simp add: encInv_init)
  have r: "\<forall>k\<in>set (tl xs). k < 256" using assms(2) xs by simp
  note l = loop_bits [OF e bufInv_init(1) r]
  from l have "encInv (lzwLoopA 8 (tl xs) (lzwInitA xs 8))" "bufInv (bits (lzwLoopA 8 (tl xs) (lzwInitA xs 8)))"
    by simp_all
  from finish_bits [OF this] l bufInv_init(2) [of xs]
  show ?thesis by (simp add: lzwEncodeA_def lzwCodesA_def toInt_def)
qed

section \<open>The decoder follows the encoder\<close>

lemma readCode_codeBits: "c < 2 ^ n \<Longrightarrow> readCode (codeBits n c) = c"
  by (simp add: readCode_def codeBits_def horner_sum_bit_eq_take_bit take_bit_nat_eq_self_iff)

lemma decode_data:
  assumes "codeWidth d = n" "0 < n" "c < 2 ^ n" "c \<noteq> 256" "c \<noteq> 257" "decoderEntry d c = Some e"
  shows "decodeLoop 8 d (codeBits n c @ rest) =
         map_option ((#) (c, n, e)) (decodeLoop 8 (decoderAdd d e) rest)"
  using assms by (subst decodeLoop.simps) (simp add: readCode_codeBits Let_def)

lemma decode_clear:
  assumes "codeWidth d = n" "256 < (2::nat) ^ n"
  shows "decodeLoop 8 d (codeBits n 256 @ rest) =
         map_option ((#) (256, n, [])) (decodeLoop 8 (decoderInit 8) rest)"
proof -
  have "0 < n" using assms(2) by (cases n) auto
  then show ?thesis
    using assms by (subst decodeLoop.simps) (simp add: readCode_codeBits Let_def)
qed

lemma sim_entry:
  assumes "sim s d" "table s (w s) = Some c"
  shows "decoderEntry d c = Some (w s)"
proof (cases "prev d")
  case None
  with assms show ?thesis by (auto simp: sim_def decoderEntry_def)
next
  case (Some p)
  show ?thesis
  proof (cases "c = free d")
    case True
    with assms Some have k: "w s = p @ [hd (w s)]" "p \<noteq> []" "dict d c = None"
      by (auto simp: sim_def)
    then have "hd (w s) = hd p" by (metis hd_append2)
    with k True Some show ?thesis by (simp add: decoderEntry_def)
  next
    case False
    with assms Some show ?thesis by (auto simp: sim_def decoderEntry_def)
  qed
qed

lemma sim_code:
  assumes "sim s d"
  obtains c where "table s (w s) = Some c" "c < 2 ^ codeSize s" "c \<noteq> 256" "c \<noteq> 257" "w s \<noteq> []"
proof -
  from assms have e: "encInv s" by (simp add: sim_def)
  then obtain c where c: "table s (w s) = Some c" by (auto simp: encInv_def)
  with e have "c < 2 ^ codeSize s" "c \<noteq> 256" "c \<noteq> 257" "w s \<noteq> []"
    by (fastforce simp: encInv_def)+
  with c that show ?thesis by blast
qed

lemma sim_hit:
  assumes "sim s d" "table s (w s @ [k]) \<noteq> None"
  shows "sim (lzwStepA 8 k s) d"
proof -
  have ne: "w s \<noteq> []" using assms(1) by (rule sim_code)
  have s': "lzwStepA 8 k s = s\<lparr>w := w s @ [k]\<rparr>" using assms(2) by (simp add: lzwStepA_def Let_def)
  have "encInv (s\<lparr>w := w s @ [k]\<rparr>)" using assms by (auto simp: sim_def encInv_def)
  then show ?thesis using assms(1) ne unfolding s' sim_def by (simp split: option.splits)
qed

lemma sim_insert:
  assumes "sim s d" "table s (w s @ [k]) = None" "nextCode s < 4096" "k < 256"
  shows "sim (lzwStepA 8 k s) (decoderAdd d (w s))"
proof -
  let ?s = "lzwStepA 8 k s"
  have e: "encInv s" using assms(1) by (simp add: sim_def)
  have e': "encInv ?s" using e assms(4) by (rule encInv_step)
  have lt: "\<And>key c. table s key = Some c \<Longrightarrow> c < nextCode s"
    using e by (auto simp: encInv_def)
  have ne: "w s \<noteq> []" using assms(1) by (rule sim_code)
  have tab: "table ?s = (table s)(w s @ [k] \<mapsto> nextCode s)" "nextCode ?s = nextCode s + 1"
    "w ?s = [k]"
    "codeSize ?s = (if nextCode s + 1 > 2 ^ codeSize s \<and> codeSize s < 12
                    then codeSize s + 1 else codeSize s)"
    using assms(2,3) by (simp_all add: lzwStepA_def Let_def maxTableSize_def)
  have le: "nextCode s \<le> 2 ^ codeSize s" using e by (simp add: encInv_def)
  show ?thesis
  proof (cases "prev d")
    case None
    with assms(1) have d: "nextCode s = 258" "free d = 258" "codeWidth d = codeSize s"
      "\<forall>c\<ge>free d. dict d c = None"
      "\<And>key c. table s key = Some c \<Longrightarrow> dict d c = Some key"
      by (auto simp: sim_def)
    have d': "decoderAdd d (w s) = d\<lparr>prev := Some (w s)\<rparr>"
      using None by (simp add: decoderAdd_def)
    have cs: "512 \<le> (2::nat) ^ codeSize s" using e pow_ge by (simp add: encInv_def)
    show ?thesis
      unfolding sim_def d' using e' tab d ne cs lt
      by (auto simp: less_le)
  next
    case (Some p)
    with assms(1) have d: "p \<noteq> []" "free d + 1 = nextCode s" "codeWidth d = codeSize s"
      "\<forall>c\<ge>free d. dict d c = None"
      "\<And>key. table s key = Some (free d) \<longleftrightarrow> key = p @ [hd (w s)]"
      "\<And>key c. table s key = Some c \<Longrightarrow> c \<noteq> free d \<Longrightarrow> dict d c = Some key"
      by (auto simp: sim_def)
    have f: "free d < 4096" using d(2) assms(3) by simp
    have d': "decoderAdd d (w s) =
        d\<lparr>dict := (dict d)(free d \<mapsto> p @ [hd (w s)]), free := free d + 1,
          codeWidth := (if free d + 1 = 2 ^ codeWidth d \<and> codeWidth d < 12
                        then codeWidth d + 1 else codeWidth d),
          prev := Some (w s)\<rparr>"
      using Some f by (simp add: decoderAdd_def)
    have wd: "(if free d + 1 = 2 ^ codeWidth d \<and> codeWidth d < 12
               then codeWidth d + 1 else codeWidth d) = codeSize ?s"
      using le d(2,3) tab(4) by auto
    have hidden: "\<And>key. table ?s key = Some (nextCode s) \<longleftrightarrow> key = w s @ [k]"
      using lt by (auto simp: tab)
    have others: "\<And>key c. table ?s key = Some c \<Longrightarrow> c \<noteq> nextCode s \<Longrightarrow>
        ((dict d)(free d \<mapsto> p @ [hd (w s)])) c = Some key"
      using d(5,6) by (auto simp: tab split: if_splits)
    show ?thesis
      unfolding sim_def d' using e' wd d(2,4) ne hidden others
      by (simp add: tab(2,3))
  qed
qed

lemma sim_full:
  assumes "sim s d" "table s (w s @ [k]) = None" "\<not> nextCode s < 4096" "k < 256"
  shows "sim (lzwStepA 8 k s) (decoderInit 8)" and "codeWidth (decoderAdd d (w s)) = codeSize s"
proof -
  have e: "encInv s" using assms(1) by (simp add: sim_def)
  have e': "encInv (lzwStepA 8 k s)" using e assms(4) by (rule encInv_step)
  have s': "table (lzwStepA 8 k s) = initTableA 256" "nextCode (lzwStepA 8 k s) = 258"
    "codeSize (lzwStepA 8 k s) = 9"
    using assms(2,3) by (simp_all add: lzwStepA_def Let_def maxTableSize_def)
  show "sim (lzwStepA 8 k s) (decoderInit 8)"
    unfolding sim_def using e' s' by (auto simp: decoderInit_def initTableA_Some)
  have n: "nextCode s = 4096" "codeSize s = 12"
  proof -
    show n: "nextCode s = 4096" using e assms(3) by (simp add: encInv_def)
    have "codeSize s \<le> 12" "nextCode s \<le> 2 ^ codeSize s" using e by (simp_all add: encInv_def)
    moreover have "codeSize s \<le> 11 \<Longrightarrow> (2::nat) ^ codeSize s \<le> 2 ^ 11"
      by (rule power_increasing) simp_all
    ultimately show "codeSize s = 12"
      using n by (cases "codeSize s \<le> 11") auto
  qed
  show "codeWidth (decoderAdd d (w s)) = codeSize s"
    using assms(1) n by (auto simp: sim_def decoderAdd_def split: option.splits)
qed

lemma evText_simps [simp]:
  "evText [] = []"
  "evText ((c, n, e) # evs) = e @ evText evs"
  "evText (xs @ ys) = evText xs @ evText ys"
  by (simp_all add: evText_def)

lemma evCodes_simps [simp]:
  "evCodes [] = []"
  "evCodes ((c, n, e) # evs) = (Some c, n) # evCodes evs"
  by (simp_all add: evCodes_def)

lemma evText_eoiEvents [simp]: "evText (eoiEvents s p) = []"
  by (simp add: eoiEvents_def)

lemma decode_eoi:
  assumes "codeWidth d = eoiReadWidth s" "encInv s"
  shows "decodeLoop 8 d (codeBits (codeSize s) 257 @ replicate p False) = Some (eoiEvents s p)"
proof -
  let ?n = "codeSize s"
  have lt: "(257::nat) < 2 ^ ?n" using assms(2) by (rule clear_lt)
  have n: "0 < ?n" using assms(2) by (simp add: encInv_def)
  show ?thesis
  proof (cases "eoiReadWidth s = ?n")
    case True
    then show ?thesis
      using n lt assms(1) by (subst decodeLoop.simps) (simp add: readCode_codeBits Let_def eoiEvents_def)
  next
    case False
    then have w: "codeWidth d = ?n + 1" using assms(1) by (simp add: eoiReadWidth_def split: if_splits)
    show ?thesis
    proof (cases p)
      case 0
      then show ?thesis
        using w False by (subst decodeLoop.simps) (simp add: eoiEvents_def)
    next
      case (Suc q)
      have lt': "(257::nat) < 2 ^ (?n + 1)" using lt by simp
      have "codeBits ?n 257 @ replicate p False = codeBits (?n + 1) 257 @ replicate q False"
        using codeBits_pad [OF lt, of "?n + 1"] Suc by (simp add: replicate_append_same)
      then show ?thesis
        using w lt' readCode_codeBits [OF lt'] False Suc
        by (subst decodeLoop.simps) (simp add: Let_def eoiEvents_def)
    qed
  qed
qed

lemma sim_add_width:
  assumes "sim s d"
  shows "codeWidth (decoderAdd d e) = eoiReadWidth s"
proof (cases "prev d")
  case None
  with assms have "nextCode s = 258" "codeWidth d = codeSize s" "encInv s" by (auto simp: sim_def)
  moreover from this have "512 \<le> (2::nat) ^ codeSize s" using pow_ge by (simp add: encInv_def)
  ultimately show ?thesis using None by (simp add: decoderAdd_def eoiReadWidth_def)
next
  case (Some p)
  with assms have d: "free d + 1 = nextCode s" "codeWidth d = codeSize s" "encInv s"
    by (auto simp: sim_def)
  then have "nextCode s \<le> 4096" "nextCode s \<le> 2 ^ codeSize s" "codeSize s \<le> 12"
    by (simp_all add: encInv_def)
  moreover have "codeSize s \<le> 11 \<Longrightarrow> (2::nat) ^ codeSize s \<le> 2 ^ 11"
    by (rule power_increasing) simp_all
  ultimately show ?thesis
    using Some d(1,2) by (cases "codeSize s \<le> 11") (auto simp: decoderAdd_def eoiReadWidth_def)
qed

lemma decode_finish:
  assumes "sim s d"
  shows "\<exists>evs. decodeLoop 8 d (codesBits (finishCodesA 8 s) @ replicate p False) = Some (evs @ eoiEvents s p) \<and>
           evText evs = w s \<and> evCodes evs = [hd (finishCodesA 8 s)]"
proof -
  from assms obtain c where c: "table s (w s) = Some c" "c < 2 ^ codeSize s" "c \<noteq> 256" "c \<noteq> 257"
    by (rule sim_code)
  have e: "encInv s" and wd: "codeWidth d = codeSize s" using assms by (simp_all add: sim_def)
  have pos: "0 < codeSize s" using e by (simp add: encInv_def)
  have "decodeLoop 8 d (codesBits (finishCodesA 8 s) @ replicate p False) =
        Some ([(c, codeSize s, w s)] @ eoiEvents s p)"
    using decode_data [OF wd pos c(2,3,4) sim_entry [OF assms c(1)]]
      decode_eoi [OF sim_add_width [OF assms] e, of "w s" p] c(1)
    by (simp add: finishCodesA_def toInt_def)
  moreover have "evCodes [(c, codeSize s, w s)] = [hd (finishCodesA 8 s)]"
    using c(1) by (simp add: finishCodesA_def)
  ultimately show ?thesis by (intro exI [of _ "[(c, codeSize s, w s)]"]) simp
qed

lemma decode_loop:
  assumes "sim s d" "\<forall>k\<in>set ks. k < 256"
  shows "\<exists>evs. decodeLoop 8 d
            (codesBits (loopCodesA 8 ks s @ finishCodesA 8 (lzwLoopA 8 ks s)) @ replicate p False)
            = Some (evs @ eoiEvents (lzwLoopA 8 ks s) p) \<and>
           evText evs = w s @ ks \<and>
           evCodes evs = loopCodesA 8 ks s @ [hd (finishCodesA 8 (lzwLoopA 8 ks s))]"
  using assms
proof (induction ks arbitrary: s d)
  case Nil
  then show ?case using decode_finish [of s d p] by simp
next
  case (Cons k ks)
  have k: "k < 256" and ks: "\<forall>k\<in>set ks. k < 256" using Cons.prems(2) by simp_all
  let ?s = "lzwStepA 8 k s"
  let ?fin = "lzwLoopA 8 ks ?s"
  let ?rest = "codesBits (loopCodesA 8 ks ?s @ finishCodesA 8 ?fin) @ replicate p False"
  show ?case
  proof (cases "table s (w s @ [k]) = None")
    case hit: False
    have w': "w ?s = w s @ [k]" using hit by (simp add: lzwStepA_def Let_def)
    from Cons.IH [OF sim_hit [OF Cons.prems(1) hit] ks] hit w'
    show ?thesis by (simp add: stepCodesA_def)
  next
    case miss: True
    from Cons.prems(1) obtain c where c: "table s (w s) = Some c" "c < 2 ^ codeSize s"
      "c \<noteq> 256" "c \<noteq> 257" by (rule sim_code)
    have e: "encInv s" and wd: "codeWidth d = codeSize s" using Cons.prems(1) by (simp_all add: sim_def)
    have pos: "0 < codeSize s" using e by (simp add: encInv_def)
    note dd = decode_data [OF wd pos c(2,3,4) sim_entry [OF Cons.prems(1) c(1)]]
    show ?thesis
    proof (cases "nextCode s < 4096")
      case True
      have w': "w ?s = [k]" using miss True by (simp add: lzwStepA_def Let_def maxTableSize_def)
      from Cons.IH [OF sim_insert [OF Cons.prems(1) miss True k] ks]
      obtain evs where evs: "decodeLoop 8 (decoderAdd d (w s)) ?rest = Some (evs @ eoiEvents ?fin p)"
        "evText evs = w ?s @ ks" "evCodes evs = loopCodesA 8 ks ?s @ [hd (finishCodesA 8 ?fin)]" by blast
      have "decodeLoop 8 d (codesBits (loopCodesA 8 (k # ks) s @ finishCodesA 8 (lzwLoopA 8 (k # ks) s))
              @ replicate p False) = Some (((c, codeSize s, w s) # evs) @ eoiEvents ?fin p)"
        using dd [of ?rest] evs(1) miss True c(1)
        by (simp add: stepCodesA_def maxTableSize_def toInt_def)
      moreover have "evCodes ((c, codeSize s, w s) # evs) =
          loopCodesA 8 (k # ks) s @ [hd (finishCodesA 8 (lzwLoopA 8 (k # ks) s))]"
        using evs(3) miss True c(1) by (simp add: stepCodesA_def maxTableSize_def)
      ultimately show ?thesis using evs(2) w'
        by (intro exI [of _ "(c, codeSize s, w s) # evs"]) simp
    next
      case full: False
      have w': "w ?s = [k]" using miss full by (simp add: lzwStepA_def Let_def maxTableSize_def)
      note sf = sim_full [OF Cons.prems(1) miss full k]
      from Cons.IH [OF sf(1) ks]
      obtain evs where evs: "decodeLoop 8 (decoderInit 8) ?rest = Some (evs @ eoiEvents ?fin p)"
        "evText evs = w ?s @ ks" "evCodes evs = loopCodesA 8 ks ?s @ [hd (finishCodesA 8 ?fin)]" by blast
      let ?evs = "(c, codeSize s, w s) # (256, codeSize s, []) # evs"
      have "decodeLoop 8 d (codesBits (loopCodesA 8 (k # ks) s @ finishCodesA 8 (lzwLoopA 8 (k # ks) s))
              @ replicate p False) = Some (?evs @ eoiEvents ?fin p)"
        using dd [of "codeBits (codeSize s) 256 @ ?rest"]
          decode_clear [OF sf(2) clear_lt(1) [OF e], of ?rest] evs(1) miss full c(1)
        by (simp add: stepCodesA_def maxTableSize_def toInt_def)
      moreover have "evCodes ?evs = loopCodesA 8 (k # ks) s @ [hd (finishCodesA 8 (lzwLoopA 8 (k # ks) s))]"
        using evs(3) miss full c(1) by (simp add: stepCodesA_def maxTableSize_def)
      ultimately show ?thesis using evs(2) w'
        by (intro exI [of _ ?evs]) simp
    qed
  qed
qed

lemma sim_init:
  assumes "i0 < 256"
  shows "sim (lzwInitA (i0 # rest) 8) (decoderInit 8)"
  unfolding sim_def using encInv_init [OF assms, of rest]
  by (auto simp: lzwInitA_def jsIndex_def decoderInit_def Let_def initTableA_Some)

lemma decodeReads_lzwEncodeA:
  assumes "xs \<noteq> []" "\<forall>k\<in>set xs. k < 256"
  shows "\<exists>evs p. p < 8 \<and> bitsOf (lzwEncodeA xs 8) = codesBits (lzwCodesA xs 8) @ replicate p False \<and>
           decodeReads 8 (lzwEncodeA xs 8) = Some (evs @ eoiEvents (lzwFinalA xs) p) \<and>
           evText evs = xs \<and> evCodes evs = butlast (lzwCodesA xs 8)"
proof -
  obtain i0 rest where xs: "xs = i0 # rest" using assms(1) by (cases xs) auto
  from lzwEncodeA_bits [OF assms] obtain p where
    p: "p < 8" "bitsOf (lzwEncodeA xs 8) = codesBits (lzwCodesA xs 8) @ replicate p False" by blast
  have i0: "i0 < 256" and r: "\<forall>k\<in>set rest. k < 256" using assms(2) xs by simp_all
  let ?s = "lzwInitA xs 8"
  let ?fin = "lzwLoopA 8 rest ?s"
  from decode_loop [OF sim_init [OF i0, of rest] r, of p]
  obtain evs where evs: "decodeLoop 8 (decoderInit 8)
      (codesBits (loopCodesA 8 rest ?s @ finishCodesA 8 ?fin) @ replicate p False)
        = Some (evs @ eoiEvents ?fin p)"
    "evText evs = w ?s @ rest" "evCodes evs = loopCodesA 8 rest ?s @ [hd (finishCodesA 8 ?fin)]"
    by (auto simp: xs)
  have w0: "w ?s = [i0]" by (simp add: xs lzwInitA_def jsIndex_def)
  have "decodeLoop 8 (decoderInit 8) (bitsOf (lzwEncodeA xs 8)) =
        Some (((256, 9, []) # evs) @ eoiEvents ?fin p)"
    unfolding p lzwCodesA_def
    using decode_clear [of "decoderInit 8" 9] evs(1)
    by (simp add: xs decoderInit_def toInt_def)
  moreover have "evCodes ((256, 9, []) # evs) = butlast (lzwCodesA xs 8)"
    using evs(3) by (simp add: lzwCodesA_def xs finishCodesA_def butlast_append)
  ultimately show ?thesis using evs(2) w0 p
    by (intro exI [of _ "(256, 9, []) # evs"] exI [of _ p]) (simp add: decodeReads_def xs lzwFinalA_def)
qed

section \<open>The run on strings is the run on sequences\<close>

lemma digit_inj: "a < 10 \<Longrightarrow> b < 10 \<Longrightarrow> char_of (48 + a :: nat) = char_of (48 + b :: nat) \<Longrightarrow> a = b"
proof -
  assume a: "a < 10" "b < 10" "char_of (48 + a) = char_of (48 + b)"
  then have "of_char (char_of (48 + a)) = (of_char (char_of (48 + b)) :: nat)" by simp
  with a(1,2) show ?thesis by (simp add: of_char_of)
qed

lemma jsString_digits: "\<forall>c\<in>set (jsString n). isDigit c"
proof (induction n rule: jsString.induct)
  case (1 n)
  show ?case
  proof (cases "n < 10")
    case True
    then show ?thesis by (subst jsString.simps) (simp add: isDigit_def)
  next
    case False
    have "n mod 10 < 10" by simp
    then have "(48 + n mod 10) mod 256 = 48 + n mod 10" by simp
    then have "isDigit (char_of (48 + n mod 10))" by (simp add: isDigit_def)
    with False "1.IH" show ?thesis by (subst jsString.simps) auto
  qed
qed

lemma jsString_nonempty: "jsString n \<noteq> []"
  by (subst jsString.simps) simp

lemma jsString_long: "10 \<le> n \<Longrightarrow> 2 \<le> length (jsString n)"
  using jsString_nonempty [of "n div 10"]
  by (subst jsString.simps) (cases "jsString (n div 10)"; simp)

lemma jsString_inj: "jsString n = jsString m \<Longrightarrow> n = m"
proof (induction n arbitrary: m rule: jsString.induct)
  case (1 n)
  show ?case
  proof (cases "n < 10")
    case True
    then have n: "jsString n = [char_of (48 + n)]" by (subst jsString.simps) simp
    have "m < 10"
    proof (rule ccontr)
      assume "\<not> m < 10"
      then have "2 \<le> length (jsString m)" by (intro jsString_long) simp
      moreover have "length (jsString m) = 1" using "1.prems" [symmetric] n by simp
      ultimately show False by simp
    qed
    then have "jsString m = [char_of (48 + m)]" by (subst jsString.simps) simp
    with n "1.prems" True \<open>m < 10\<close> show ?thesis by (auto dest: digit_inj)
  next
    case False
    then have n: "jsString n = jsString (n div 10) @ [char_of (48 + n mod 10)]"
      by (subst jsString.simps) simp
    have "\<not> m < 10"
    proof
      assume "m < 10"
      then have "jsString m = [char_of (48 + m)]" by (subst jsString.simps) simp
      then have "length (jsString n) = 1" using "1.prems" by simp
      moreover have "2 \<le> length (jsString n)" using False by (intro jsString_long) simp
      ultimately show False by simp
    qed
    then have m: "jsString m = jsString (m div 10) @ [char_of (48 + m mod 10)]"
      by (subst jsString.simps) simp
    from "1.prems" n m have "jsString (n div 10) = jsString (m div 10)"
      "char_of (48 + n mod 10) = (char_of (48 + m mod 10) :: char)" by simp_all
    with "1.IH" [OF False] have "n div 10 = m div 10" "n mod 10 = m mod 10"
      by (auto dest: digit_inj)
    then show ?thesis by (metis div_mult_mod_eq)
  qed
qed

lemma comma_not_digit: "\<not> isDigit CHR '',''" "\<not> isDigit CHR ''u''"
  by (simp_all add: isDigit_def)

lemma digits_split:
  assumes "xs @ r1 = ys @ r2" "\<forall>c\<in>set xs. isDigit c" "\<forall>c\<in>set ys. isDigit c"
    "r1 = [] \<or> \<not> isDigit (hd r1)" "r2 = [] \<or> \<not> isDigit (hd r2)"
  shows "xs = ys \<and> r1 = r2"
  using assms
proof (induction xs arbitrary: ys)
  case Nil
  then show ?case by (cases ys) auto
next
  case (Cons x xs)
  show ?case
  proof (cases ys)
    case Nil
    with Cons.prems show ?thesis by auto
  next
    case (Cons y ys')
    with Cons.prems Cons.IH [of ys'] show ?thesis by auto
  qed
qed

lemma keyString_Cons:
  "keyString (k # ks) = jsString k @ (if ks = [] then [] else '','' @ keyString ks)"
  by (cases ks) simp_all

lemma keyString_snoc: "ws \<noteq> [] \<Longrightarrow> keyString (ws @ [k]) = keyString ws @ CHR '','' # jsString k"
proof (induction ws)
  case Nil
  then show ?case by simp
next
  case (Cons a ws)
  then show ?case by (cases ws) (simp_all add: keyString_Cons)
qed

lemma keyString_inj: "keyString ws = keyString vs \<Longrightarrow> ws = vs"
proof (induction ws arbitrary: vs)
  case Nil
  show ?case
  proof (cases vs)
    case (Cons v vs')
    have "isDigit (hd (jsString v))"
      using jsString_digits [of v] jsString_nonempty [of v] by (cases "jsString v") auto
    moreover have "hd (keyString vs) = hd (jsString v)"
      using jsString_nonempty [of v] by (simp add: Cons keyString_Cons)
    moreover have "hd (keyString vs) = CHR ''u''"
    proof -
      from Nil have "keyString vs = ''undefined''" by simp
      then show ?thesis by simp
    qed
    ultimately show ?thesis using comma_not_digit(2) by simp
  qed simp
next
  case (Cons k ws)
  show ?case
  proof (cases vs)
    case Nil
    have "isDigit (hd (jsString k))"
      using jsString_digits [of k] jsString_nonempty [of k] by (cases "jsString k") auto
    moreover have "hd (keyString (k # ws)) = hd (jsString k)"
      using jsString_nonempty [of k] by (simp add: keyString_Cons)
    moreover have "hd (keyString (k # ws)) = CHR ''u''"
    proof -
      from Cons.prems Nil have "keyString (k # ws) = ''undefined''" by simp
      then show ?thesis by simp
    qed
    ultimately show ?thesis using comma_not_digit(2) by simp
  next
    case (Cons v vs')
    let ?r1 = "if ws = [] then [] else '','' @ keyString ws"
    let ?r2 = "if vs' = [] then [] else '','' @ keyString vs'"
    have "jsString k @ ?r1 = jsString v @ ?r2"
      using Cons.prems by (simp add: Cons keyString_Cons)
    from digits_split [OF this jsString_digits jsString_digits]
    have e: "jsString k = jsString v" "?r1 = ?r2" using comma_not_digit(1) by auto
    then have "k = v" by (simp add: jsString_inj)
    moreover have "ws = vs'"
    proof (cases "ws = []")
      case True
      with e(2) show ?thesis by (auto split: if_splits)
    next
      case False
      with e(2) have "vs' \<noteq> []" "keyString ws = keyString vs'" by (auto split: if_splits)
      then show ?thesis using Cons.IH by blast
    qed
    ultimately show ?thesis by (simp add: Cons)
  qed
qed

lemma keyString_single: "jsString v = keyString [v]"
  by simp


lemma initTable_Some: "initTable c x = Some v \<longleftrightarrow> x = jsString v \<and> v < c"
proof (induction c)
  case 0
  show ?case by (simp add: initTable_def)
next
  case (Suc c)
  have "initTable (Suc c) = (initTable c)(jsString c \<mapsto> c)"
    by (simp add: initTable_def)
  with Suc show ?case by (auto simp: less_Suc_eq dest: jsString_inj)
qed

lemma option_eq_iff: "(\<And>v. a = Some v \<longleftrightarrow> b = Some v) \<Longrightarrow> a = b"
  by (cases a; cases b) auto

lemma initTable_keyString: "initTable c (keyString key) = initTableA c key"
proof (rule option_eq_iff)
  fix v
  have "keyString key = jsString v \<longleftrightarrow> key = [v]"
    using keyString_inj [of key "[v]"] by auto
  then show "initTable c (keyString key) = Some v \<longleftrightarrow> initTableA c key = Some v"
    by (simp add: initTable_Some initTableA_Some)
qed

lemma initTable_None: "x \<notin> range keyString \<Longrightarrow> initTable c x = None"
proof (rule ccontr)
  assume x: "x \<notin> range keyString" and "initTable c x \<noteq> None"
  then obtain v where "initTable c x = Some v" by auto
  then have "x = keyString [v]" by (simp add: initTable_Some)
  with x show False by blast
qed

lemma keysRel_init: "keysRel (lzwInit xs m) (lzwInitA xs m)"
  by (auto simp: keysRel_def lzwInit_def lzwInitA_def Let_def initTable_keyString initTable_None
      split: option.splits)

lemma keysRel_step:
  assumes "keysRel s t" "w t \<noteq> []"
  shows "keysRel (lzwStep m k s) (lzwStepA m k t)" and "stepCodes m k s = stepCodesA m k t"
    and "w (lzwStepA m k t) \<noteq> []"
proof -
  have wk: "w s @ CHR '','' # jsString k = keyString (w t @ [k])"
    using assms by (simp add: keysRel_def keyString_snoc)
  have hit: "table s (w s @ CHR '','' # jsString k) = table t (w t @ [k])"
    using assms(1) unfolding wk by (simp add: keysRel_def)
  have cur: "table s (w s) = table t (w t)" using assms(1) by (simp add: keysRel_def)
  have eq: "nextCode s = nextCode t" "codeSize s = codeSize t" "bits s = bits t"
    using assms(1) by (simp_all add: keysRel_def)
  have ins: "((table s)(keyString (w t @ [k]) \<mapsto> c)) (keyString key) = ((table t)(w t @ [k] \<mapsto> c)) key"
    for c key
    using assms(1) keyString_inj [of key "w t @ [k]"] by (auto simp: keysRel_def)
  have out: "x \<notin> range keyString \<Longrightarrow> ((table s)(keyString (w t @ [k]) \<mapsto> c)) x = None" for c x
    using assms(1) by (auto simp: keysRel_def)
  show "stepCodes m k s = stepCodesA m k t"
    by (simp add: stepCodes_def stepCodesA_def hit cur eq)
  show "w (lzwStepA m k t) \<noteq> []"
    by (simp add: lzwStepA_def Let_def)
  show "keysRel (lzwStep m k s) (lzwStepA m k t)"
  proof (cases "table t (w t @ [k]) = None")
    case False
    then show ?thesis
      using assms(1) hit wk by (simp add: lzwStep_def lzwStepA_def Let_def keysRel_def)
  next
    case miss: True
    show ?thesis
    proof (cases "nextCode t < maxTableSize")
      case True
      then show ?thesis
        using miss hit cur eq ins out unfolding wk
        by (simp add: lzwStep_def lzwStepA_def Let_def keysRel_def wk)
    next
      case False
      then show ?thesis
        using miss hit cur eq
        by (simp add: lzwStep_def lzwStepA_def Let_def keysRel_def wk initTable_keyString
            initTable_None)
    qed
  qed
qed

lemma keysRel_loop:
  assumes "keysRel s t" "ks \<noteq> [] \<longrightarrow> w t \<noteq> []"
  shows "keysRel (lzwLoop m ks s) (lzwLoopA m ks t) \<and> loopCodes m ks s = loopCodesA m ks t"
  using assms
proof (induction ks arbitrary: s t)
  case Nil
  then show ?case by simp
next
  case (Cons k ks)
  then have "w t \<noteq> []" by simp
  note st = keysRel_step [OF Cons.prems(1) this, of m k]
  from Cons.IH [OF st(1)] st(2,3) show ?case by simp
qed

lemma keysRel_run:
  "keysRel (lzwLoop m (tl xs) (lzwInit xs m)) (lzwLoopA m (tl xs) (lzwInitA xs m))"
  "loopCodes m (tl xs) (lzwInit xs m) = loopCodesA m (tl xs) (lzwInitA xs m)"
proof -
  have "tl xs \<noteq> [] \<longrightarrow> w (lzwInitA xs m) \<noteq> []"
    by (cases xs) (simp_all add: lzwInitA_def jsIndex_def Let_def)
  from keysRel_loop [OF keysRel_init this]
  show "keysRel (lzwLoop m (tl xs) (lzwInit xs m)) (lzwLoopA m (tl xs) (lzwInitA xs m))"
    "loopCodes m (tl xs) (lzwInit xs m) = loopCodesA m (tl xs) (lzwInitA xs m)"
    by simp_all
qed

lemma lzwEncode_eq: "lzwEncode xs m = lzwEncodeA xs m"
  using keysRel_run(1) [of m xs]
  by (simp add: lzwEncode_def lzwEncodeA_def lzwFinish_def lzwFinishA_def keysRel_def)

lemma lzwCodes_eq: "lzwCodes xs m = lzwCodesA xs m"
  using keysRel_run [of m xs]
  by (simp add: lzwCodes_def lzwCodesA_def finishCodes_def finishCodesA_def keysRel_def)



lemma lzwEncode_bits:
  assumes "xs \<noteq> []" "\<forall>k\<in>set xs. k < 256"
  shows "\<exists>p<8. bitsOf (lzwEncode xs 8) = codesBits (lzwCodes xs 8) @ replicate p False"
  using lzwEncodeA_bits [OF assms] by (simp add: lzwEncode_eq lzwCodes_eq)

lemma decodeReads_lzwEncode:
  assumes "xs \<noteq> []" "\<forall>k\<in>set xs. k < 256"
  shows "\<exists>evs p. p < 8 \<and> bitsOf (lzwEncode xs 8) = codesBits (lzwCodes xs 8) @ replicate p False \<and>
           decodeReads 8 (lzwEncode xs 8) = Some (evs @ eoiEvents (lzwFinalA xs) p) \<and>
           evText evs = xs \<and> evCodes evs = butlast (lzwCodes xs 8)"
  using decodeReads_lzwEncodeA [OF assms] by (simp add: lzwEncode_eq lzwCodes_eq)

lemma last_lzwCodes: "last (lzwCodes xs 8) = (Some 257, codeSize (lzwFinalA xs))"
  by (simp add: lzwCodes_eq lzwCodesA_def finishCodesA_def lzwFinalA_def)

section \<open>Claims about the LZW compressor\<close>

lemma length_bitsOf: "length (bitsOf bs) = 8 * length bs"
  by (induction bs) (simp_all add: bitsOf_def bitsOfByte_def)

lemma length_codesBits: "length (codesBits cs) = sum_list (map snd cs)"
  by (induction cs) (auto simp: codesBits_def)

lemma lzwCodes_single:
  assumes "k < 256"
  shows "lzwCodes [k] 8 = [(Some 256, 9), (Some k, 9), (Some 257, 9)]"
  using assms
  by (simp add: lzwCodes_eq lzwCodesA_def lzwInitA_def jsIndex_def finishCodesA_def Let_def
      initTableA_apply)

text \<open>
  Claim C8. For a single index \<open>k\<close> (a byte) and \<open>minCodeSize = 8\<close>, \<open>lzwEncode\<close> writes exactly
  three codes, Clear (256), \<open>k\<close> and End-of-Information (257), each 9 bits wide; its output
  is these 27 bits followed by 5 zero bits that fill the last of its 4 bytes.
\<close>

theorem lzwEncode_single:
  assumes "k < 256"
  shows "lzwCodes [k] 8 = [(Some 256, 9), (Some k, 9), (Some 257, 9)] \<and>
         bitsOf (lzwEncode [k] 8) = codeBits 9 256 @ codeBits 9 k @ codeBits 9 257 @ replicate 5 False \<and>
         length (lzwEncode [k] 8) = 4"
proof -
  note c = lzwCodes_single [OF assms]
  from lzwEncode_bits [of "[k]"] assms obtain p where
    p: "p < 8" "bitsOf (lzwEncode [k] 8) = codesBits (lzwCodes [k] 8) @ replicate p False" by auto
  from arg_cong [OF p(2), of length] have "8 * length (lzwEncode [k] 8) = 27 + p"
    by (simp add: length_bitsOf c)
  with p(1) have "p = 5" "length (lzwEncode [k] 8) = 4" by presburger+
  with p(2) c show ?thesis by (simp add: toInt_def)
qed

theorem lzwEncode_single_witness:
  "(7::nat) < 256 \<and> lzwCodes [7] 8 = [(Some 256, 9), (Some 7, 9), (Some 257, 9)] \<and>
   bitsOf (lzwEncode [7] 8) = codeBits 9 256 @ codeBits 9 7 @ codeBits 9 257 @ replicate 5 False \<and>
   length (lzwEncode [7] 8) = 4"
  using lzwEncode_single [of 7] by simp

text \<open>
  Claim C1. For every non-empty buffer of indices below 256 and \<open>minCodeSize = 8\<close>, the
  decoder applied to the output of \<open>lzwEncode\<close> returns the buffer; the witness is the
  buffer \<open>[0,0,0,1,1,0,0,0,0,1,1]\<close> of the specification. (The decoder reads every code up
  to the last data code at the width at which it was written, \<open>decodeReads_lzwEncode\<close>; the
  code after that is End-of-Information, possibly read with one more bit, a padding zero,
  or cut short by the end of the data.)
\<close>

theorem lzwEncode_roundtrip:
  assumes "xs \<noteq> []" "\<forall>k\<in>set xs. k < 256"
  shows "lzwDecode 8 (lzwEncode xs 8) = Some xs"
proof -
  from decodeReads_lzwEncode [OF assms] obtain evs p where
    "decodeReads 8 (lzwEncode xs 8) = Some (evs @ eoiEvents (lzwFinalA xs) p)" "evText evs = xs"
    by blast
  then have "lzwDecode 8 (lzwEncode xs 8) = Some (evText (evs @ eoiEvents (lzwFinalA xs) p))"
    by (simp add: lzwDecode_def evText_def)
  then show ?thesis using \<open>evText evs = xs\<close> by simp
qed

theorem lzwEncode_roundtrip_witness:
  "[0, 0, 0, 1, 1, 0, 0, 0, 0, 1, 1] \<noteq> ([] :: nat list) \<and>
   list_all (\<lambda>k. k < 256) [0, 0, 0, 1, 1, 0, 0, 0, 0, 1, 1 :: nat] \<and>
   lzwDecode 8 (lzwEncode [0, 0, 0, 1, 1, 0, 0, 0, 0, 1, 1] 8) = Some [0, 0, 0, 1, 1, 0, 0, 0, 0, 1, 1]"
  using lzwEncode_roundtrip [of "[0, 0, 0, 1, 1, 0, 0, 0, 0, 1, 1]"] by simp



lemma climbing_step:
  assumes "climbing j s" "1 \<le> j" "j < 255"
  shows "climbing (Suc j) (lzwStepA 8 j s)" and "map snd (stepCodesA 8 j s) = [9]"
proof -
  have miss: "table s (w s @ [j]) = None"
  proof (rule ccontr)
    assume "table s (w s @ [j]) \<noteq> None"
    with assms(1) have "length (w s @ [j]) = 1 \<or> (\<exists>i. w s @ [j] = [i, Suc i] \<and> Suc i < j)"
      unfolding climbing_def by blast
    with assms(1) show False by (auto simp: climbing_def)
  qed
  have n: "nextCode s < 4096" "nextCode s + 1 \<le> 512" using assms by (simp_all add: climbing_def)
  show "map snd (stepCodesA 8 j s) = [9]"
    using miss n assms(1) by (simp add: stepCodesA_def maxTableSize_def climbing_def)
  show "climbing (Suc j) (lzwStepA 8 j s)"
    using miss n assms unfolding climbing_def
    by (auto simp: lzwStepA_def Let_def maxTableSize_def)
qed

lemma climbing_loop:
  assumes "climbing j s" "1 \<le> j" "j + n \<le> 255"
  shows "climbing (j + n) (lzwLoopA 8 [j..<j + n] s) \<and>
         map snd (loopCodesA 8 [j..<j + n] s) = replicate n 9"
  using assms
proof (induction n arbitrary: j s)
  case 0
  then show ?case by simp
next
  case (Suc n)
  have j: "j < 255" using Suc.prems(3) by simp
  note st = climbing_step [OF Suc.prems(1,2) j]
  have u: "[j..<j + Suc n] = j # [Suc j..<Suc j + n]" by (simp add: upt_rec)
  from Suc.IH [OF st(1), of ] Suc.prems(3) st(2) show ?case
    unfolding u by simp
qed

lemma climbing_init: "climbing 1 (lzwInitA [0..<255] 8)"
proof -
  have "[0..<255] = 0 # [1..<255]" by (simp add: upt_rec)
  then show ?thesis
    by (auto simp: climbing_def lzwInitA_def jsIndex_def Let_def initTableA_Some)
qed

lemma lzwFinalA_255:
  "nextCode (lzwFinalA [0..<255]) = 512" "codeSize (lzwFinalA [0..<255]) = 9"
  "sum_list (map snd (lzwCodesA [0..<255] 8)) = 2313"
  "last (lzwCodesA [0..<255] 8) = (Some 257, 9)"
proof -
  have t: "tl [0..<255] = [1..<1 + 254]" by (simp add: upt_rec [of 0])
  note c = climbing_loop [OF climbing_init, of 254, simplified]
  have f: "lzwFinalA [0..<255] = lzwLoopA 8 [1..<255] (lzwInitA [0..<255] 8)"
    using t by (simp add: lzwFinalA_def)
  from c show "nextCode (lzwFinalA [0..<255]) = 512" "codeSize (lzwFinalA [0..<255]) = 9"
    by (simp_all add: f climbing_def)
  then show "last (lzwCodesA [0..<255] 8) = (Some 257, 9)"
    by (simp add: lzwCodesA_def finishCodesA_def lzwFinalA_def)
  have "map snd (lzwCodesA [0..<255] 8) = 9 # replicate 254 9 @ [9, 9]"
    using c t \<open>codeSize (lzwFinalA [0..<255]) = 9\<close>
    by (simp add: lzwCodesA_def finishCodesA_def lzwFinalA_def)
  then show "sum_list (map snd (lzwCodesA [0..<255] 8)) = 2313"
    by (simp add: sum_list_replicate)
qed

text \<open>
  Claim C3, at the buffer \<open>0, 1, ..., 254\<close> with \<open>minCodeSize = 8\<close>. The encoder writes 255
  data codes after the Clear code, all 9 bits wide, and then the End-of-Information code
  with 9 bits as well: after its last data code it does not look at the width again. The
  decoder has added its entry 511 with the last data code and reads the code that follows
  with 10 bits.
\<close>

theorem lzwEncode_eoi_width:
  "last (lzwCodes [0..<255] 8) = (Some 257, 9) \<and>
   map_option last (decodeReads 8 (lzwEncode [0..<255] 8)) = Some (257, 10, [])"
proof -
  let ?xs = "[0..<255] :: nat list"
  have ne: "?xs \<noteq> []" by simp
  have lt: "\<forall>k\<in>set ?xs. k < 256" by simp
  from decodeReads_lzwEncode [OF ne lt] obtain evs p where
    p: "p < 8" "bitsOf (lzwEncode ?xs 8) = codesBits (lzwCodes ?xs 8) @ replicate p False"
    and d: "decodeReads 8 (lzwEncode ?xs 8) = Some (evs @ eoiEvents (lzwFinalA ?xs) p)"
    by blast
  from arg_cong [OF p(2), of length] have "8 * length (lzwEncode ?xs 8) = 2313 + p"
    by (simp add: length_bitsOf length_codesBits lzwCodes_eq lzwFinalA_255(3))
  with p(1) have "p = 7" by presburger
  then have "eoiEvents (lzwFinalA ?xs) p = [(257, 10, [])]"
    by (simp add: eoiEvents_def eoiReadWidth_def lzwFinalA_255)
  with d lzwFinalA_255(2) show ?thesis by (simp add: last_lzwCodes)
qed

section \<open>Shape of the quantiser's and the container's results\<close>

lemma length_medianCut: "1 \<le> length (medianCut pixels depth) \<and> length (medianCut pixels depth) \<le> 2 ^ depth"
proof (induction depth arbitrary: pixels)
  case 0
  show ?case by simp
next
  case (Suc depth)
  show ?case
  proof (cases "length pixels = 0")
    case True
    then show ?thesis by simp
  next
    case False
    obtain a b where ab: "medianCut pixels (Suc depth) = medianCut a depth @ medianCut b depth"
      using False by (simp add: Let_def)
    from Suc.IH [of a] Suc.IH [of b] show ?thesis unfolding ab by simp
  qed
qed

lemma length_padPalette [simp]: "length (padPalette pal) = 256"
  by (simp add: padPalette_def)

lemma padPalette_short: "length pal \<le> 256 \<Longrightarrow> padPalette pal = pal @ replicate (256 - length pal) black"
  by (simp add: padPalette_def)

lemma fold_nearest_range:
  "fst best < N \<Longrightarrow> \<forall>c\<in>set cs. c < N \<Longrightarrow> fst (fold (nearestStep pal p) cs best) < N"
proof (induction cs arbitrary: best)
  case Nil
  then show ?case by simp
next
  case (Cons c cs)
  have "fst (nearestStep pal p c best) < N"
    using Cons.prems by (auto simp: nearestStep_def split: jsnum.splits option.splits)
  then show ?case using Cons by simp
qed

lemma nearest_lt: "nearest pal p < 256"
  unfolding nearest_def by (rule fold_nearest_range) simp_all

lemma quantize_shape:
  "length (palette (quantize img)) = 256"
  "length (indices (quantize img)) = width img * height img"
  "k \<in> set (indices (quantize img)) \<Longrightarrow> k < 256"
  by (auto simp: quantize_def Let_def nearest_lt)

lemma quantize_palette:
  "palette (quantize img) =
     medianCut (samplesOf img) 8 @ replicate (256 - length (medianCut (samplesOf img) 8)) black"
  using length_medianCut [of "samplesOf img" 8]
  by (simp add: quantize_def Let_def padPalette_short)

lemma gctBytes_Inr:
  assumes "length pal = 256"
  shows "\<exists>gct. gctBytes pal = Inr gct \<and> length gct = 768"
proof -
  have "length (concat (map (\<lambda>i. [f i, g i, h i]) xs)) = 3 * length xs" for f g h :: "nat \<Rightarrow> nat" and xs
    by (induction xs) simp_all
  then show ?thesis using assms by (simp add: gctBytes_def)
qed

lemma le16_eq: "le16 v = [v mod 256, v div 256 mod 256]"
proof -
  have m: "(255::nat) = mask 8" by (simp add: mask_eq_exp_minus_1)
  show ?thesis
    by (simp add: le16_def m and_mask_mod_2p drop_bit_eq_div take_bit_eq_mod flip: take_bit_eq_mask)
qed

lemma le16_value: "v < 65536 \<Longrightarrow> le16 v ! 0 + 256 * le16 v ! 1 = v"
  by (simp add: le16_eq)

lemma length_le16 [simp]: "length (le16 v) = 2"
  by (simp add: le16_def)

lemma buildGif_eq:
  obtains gct where "gctBytes (palette (quantize img)) = Inr gct" "length gct = 768"
    "buildGif img = Inr ([0x47, 0x49, 0x46, 0x38, 0x39, 0x61]
        @ (le16 (width img) @ le16 (height img) @ [0xf7, 0x00, 0x00])
        @ gct
        @ [0x21, 0xf9, 0x04, 0x00, 0x00, 0x00, 0x00, 0x00]
        @ ([0x2c] @ le16 0 @ le16 0 @ le16 (width img) @ le16 (height img) @ [0x00])
        @ [8]
        @ concat (subBlocks (lzwEncode (indices (quantize img)) 8) 0)
        @ [0x00, 0x3b])"
proof -
  from gctBytes_Inr [OF quantize_shape(1), of img] obtain gct where
    g: "gctBytes (palette (quantize img)) = Inr gct" "length gct = 768" by blast
  then have "buildGif img = Inr ([0x47, 0x49, 0x46, 0x38, 0x39, 0x61]
        @ (le16 (width img) @ le16 (height img) @ [0xf7, 0x00, 0x00])
        @ gct
        @ [0x21, 0xf9, 0x04, 0x00, 0x00, 0x00, 0x00, 0x00]
        @ ([0x2c] @ le16 0 @ le16 0 @ le16 (width img) @ le16 (height img) @ [0x00])
        @ [8]
        @ concat (subBlocks (lzwEncode (indices (quantize img)) 8) 0)
        @ [0x00, 0x3b])"
    by (simp add: buildGif_def Let_def)
  with g that show ?thesis by blast
qed

subsection \<open>Images of one pixel\<close>











subsection \<open>Numbers in, numbers out\<close>












lemma dist_formula:
  "dist (Num r, Num g, Num b) (Num r', Num g', Num b') =
     Num ((r - r') * (r - r') + (g - g') * (g - g') + (b - b') * (b - b'))"
  by (simp add: dist_def)


section \<open>Claims about the quantiser and the container\<close>

text \<open>
  Claim C5. For every input, \<open>buildGif\<close> returns a byte sequence whose bytes 0 to 5 are
  \<open>GIF89a\<close>; bytes 6 to 9 are \<open>le16\<close> of the width and of the height, that is each
  dimension's low byte and then its next byte, which for dimensions below 65536 is the
  dimension itself in 16 bits, little-endian; byte 10 is \<open>0xF7\<close>; the eight bytes from 781
  on (after the 768 bytes of the colour table) are the Graphic Control Extension
  \<open>21 F9 04 00 00 00 00 00\<close>; byte 799 (after the ten bytes of the Image Descriptor) is the
  minimum code size 8; and the last byte is \<open>0x3B\<close>.
\<close>

theorem buildGif_fixed_bytes:
  "\<exists>out. buildGif img = Inr out \<and>
     take 6 out = [0x47, 0x49, 0x46, 0x38, 0x39, 0x61] \<and>
     take 4 (drop 6 out) = le16 (width img) @ le16 (height img) \<and>
     le16 (width img) = [width img mod 256, width img div 256 mod 256] \<and>
     le16 (height img) = [height img mod 256, height img div 256 mod 256] \<and>
     (width img < 65536 \<longrightarrow> out ! 6 + 256 * out ! 7 = width img) \<and>
     (height img < 65536 \<longrightarrow> out ! 8 + 256 * out ! 9 = height img) \<and>
     out ! 10 = 0xF7 \<and>
     take 8 (drop 781 out) = [0x21, 0xF9, 0x04, 0x00, 0x00, 0x00, 0x00, 0x00] \<and>
     out ! 799 = 0x08 \<and>
     last out = 0x3B"
proof -
  obtain gct where g: "length gct = 768" and
    b: "buildGif img = Inr ([0x47, 0x49, 0x46, 0x38, 0x39, 0x61]
        @ (le16 (width img) @ le16 (height img) @ [0xf7, 0x00, 0x00])
        @ gct
        @ [0x21, 0xf9, 0x04, 0x00, 0x00, 0x00, 0x00, 0x00]
        @ ([0x2c] @ le16 0 @ le16 0 @ le16 (width img) @ le16 (height img) @ [0x00])
        @ [8]
        @ concat (subBlocks (lzwEncode (indices (quantize img)) 8) 0)
        @ [0x00, 0x3b])" (is "_ = Inr ?out")
    by (rule buildGif_eq)
  have 1: "take 6 ?out = [0x47, 0x49, 0x46, 0x38, 0x39, 0x61]" by simp
  have 2: "take 4 (drop 6 ?out) = le16 (width img) @ le16 (height img)" by simp
  have 3: "width img < 65536 \<Longrightarrow> ?out ! 6 + 256 * ?out ! 7 = width img"
    by (simp add: le16_eq)
  have 4: "height img < 65536 \<Longrightarrow> ?out ! 8 + 256 * ?out ! 9 = height img"
    by (simp add: le16_eq)
  have 5: "?out ! 10 = 0xF7" by (simp add: le16_eq)
  have 6: "take 8 (drop 781 ?out) = [0x21, 0xF9, 0x04, 0x00, 0x00, 0x00, 0x00, 0x00]"
    using g by simp
  have 7: "?out ! 799 = 0x08"
    using g by (simp add: nth_append le16_eq)
  have 8: "last ?out = 0x3B" by simp
  from b 1 2 3 4 5 6 7 8 show ?thesis
    by (intro exI [of _ ?out] conjI impI le16_eq) 
qed



text \<open>
  Claim C7. For every input, \<open>quantize\<close> returns a palette of exactly 256 entries, the
  between 1 and 256 colours of the median cut followed by black entries, and
  \<open>width * height\<close> indices, all below 256; and the colour table that \<open>buildGif\<close> writes
  from the palette is the 768 bytes from byte 13 of its result on.
\<close>

theorem quantize_palette_indices:
  "length (palette (quantize img)) = 256 \<and>
   palette (quantize img) =
     medianCut (samplesOf img) 8 @ replicate (256 - length (medianCut (samplesOf img) 8)) black \<and>
   1 \<le> length (medianCut (samplesOf img) 8) \<and> length (medianCut (samplesOf img) 8) \<le> 256 \<and>
   black = (Num 0, Num 0, Num 0) \<and>
   length (indices (quantize img)) = width img * height img \<and>
   (\<forall>k\<in>set (indices (quantize img)). k < 256) \<and>
   (\<exists>out gct. buildGif img = Inr out \<and> gctBytes (palette (quantize img)) = Inr gct \<and>
      length gct = 768 \<and> take 768 (drop 13 out) = gct)"
proof -
  obtain gct where g: "gctBytes (palette (quantize img)) = Inr gct" "length gct = 768" and
    b: "buildGif img = Inr ([0x47, 0x49, 0x46, 0x38, 0x39, 0x61]
        @ (le16 (width img) @ le16 (height img) @ [0xf7, 0x00, 0x00])
        @ gct
        @ [0x21, 0xf9, 0x04, 0x00, 0x00, 0x00, 0x00, 0x00]
        @ ([0x2c] @ le16 0 @ le16 0 @ le16 (width img) @ le16 (height img) @ [0x00])
        @ [8]
        @ concat (subBlocks (lzwEncode (indices (quantize img)) 8) 0)
        @ [0x00, 0x3b])" (is "_ = Inr ?out")
    by (rule buildGif_eq)
  have t: "take 768 (drop 13 ?out) = gct" using g(2) by simp
  have e: "\<exists>out gct. buildGif img = Inr out \<and> gctBytes (palette (quantize img)) = Inr gct \<and>
      length gct = 768 \<and> take 768 (drop 13 out) = gct"
    using b g t by blast
  from length_medianCut [of "samplesOf img" 8] e show ?thesis
    using quantize_shape(1,2) [of img] quantize_shape(3) [of _ img] quantize_palette [of img]
    by (simp add: black_def)
qed

theorem quantize_palette_indices_witness:
  "length (indices (quantize \<lparr>data = [255, 0, 0, 255], width = 1, height = 1\<rparr>)) = 1 \<and>
   list_all (\<lambda>k. k < 256) (indices (quantize \<lparr>data = [255, 0, 0, 255], width = 1, height = 1\<rparr>)) \<and>
   length (palette (quantize \<lparr>data = [255, 0, 0, 255], width = 1, height = 1\<rparr>)) = 256"
  using quantize_palette_indices [of "\<lparr>data = [255, 0, 0, 255], width = 1, height = 1\<rparr>"]
  by (simp add: list_all_iff)

theorem buildGif_fixed_bytes_witness:
  "(2::nat) < 65536 \<and>
   (\<exists>out. buildGif \<lparr>data = [255,0,0,255, 255,0,0,255, 0,0,255,255, 0,255,0,255], width = 2, height = 2\<rparr> = Inr out \<and>
      take 6 out = [0x47, 0x49, 0x46, 0x38, 0x39, 0x61] \<and>
      out ! 6 + 256 * out ! 7 = 2 \<and> out ! 8 + 256 * out ! 9 = 2 \<and> out ! 10 = 0xF7 \<and>
      take 8 (drop 781 out) = [0x21, 0xF9, 0x04, 0x00, 0x00, 0x00, 0x00, 0x00] \<and>
      out ! 799 = 0x08 \<and> last out = 0x3B)"
  using buildGif_fixed_bytes [of "\<lparr>data = [255,0,0,255, 255,0,0,255, 0,0,255,255, 0,255,0,255], width = 2, height = 2\<rparr>"]
  by auto



text \<open>
  Claim C10. \<open>lzwEncode\<close> reads \<open>indices[0]\<close> whatever the length. On the empty buffer the
  read is \<open>undefined\<close> and so is the lookup of the pending \<open>w\<close>: the second of the codes
  written is no code (\<open>None\<close>). No valid code stream for the buffer results: the bits
  written for \<open>undefined\<close> are those of code 0, and the bytes decode to the one index 0, not
  to the empty buffer. On a non-empty buffer of indices below 256, which is what
  \<open>quantize\<close> returns whenever \<open>width * height\<close> is positive, the read is an index and no
  code written is \<open>undefined\<close>.
\<close>

theorem lzwEncode_empty:
  "jsIndex [] 0 = None \<and>
   lzwCodes [] 8 = [(Some 256, 9), (None, 9), (Some 257, 9)] \<and>
   lzwEncode [] 8 = [0, 1, 4, 4] \<and>
   lzwDecode 8 (lzwEncode [] 8) = Some [0] \<and>
   (xs \<noteq> [] \<and> (\<forall>k\<in>set xs. k < 256) \<longrightarrow>
      jsIndex xs 0 = Some (hd xs) \<and> (\<forall>cn\<in>set (lzwCodes xs 8). fst cn \<noteq> None)) \<and>
   (0 < width img * height img \<longrightarrow>
      indices (quantize img) \<noteq> [] \<and> (\<forall>k\<in>set (indices (quantize img)). k < 256))"
proof -
  have a: "lzwCodes [] 8 = [(Some 256, 9), (None, 9), (Some 257, 9)]"
    by (simp add: lzwCodes_eq lzwCodesA_def lzwInitA_def jsIndex_def finishCodesA_def Let_def
        initTableA_apply)
  have b: "lzwEncode [] 8 = [0, 1, 4, 4]"
    by (simp add: lzwEncode_eq lzwEncodeA_def lzwFinishA_def lzwInitA_def jsIndex_def Let_def
        initTableA_apply writeBits_def flushBytes.simps toInt_def)
  have c: "lzwDecode 8 [0, 1, 4, 4] = Some [0]"
    by (simp add: lzwDecode_def decodeReads_def decodeLoop.simps bitsOf_def bitsOfByte_def
        decoderInit_def decoderEntry_def decoderAdd_def readCode_def Let_def upt_rec
        bit_numeral_rec bit_0 bit_Suc)
  have d: "\<forall>cn\<in>set (lzwCodes xs 8). fst cn \<noteq> None" if "xs \<noteq> []" "\<forall>k\<in>set xs. k < 256"
  proof -
    from decodeReads_lzwEncode [OF that] obtain evs where
      e: "evCodes evs = butlast (lzwCodes xs 8)" by blast
    have l: "lzwCodes xs 8 = butlast (lzwCodes xs 8) @ [(Some 257, codeSize (lzwFinalA xs))]"
      by (simp add: lzwCodes_eq lzwCodesA_def finishCodesA_def lzwFinalA_def butlast_append)
    have "\<forall>cn\<in>set (evCodes evs). fst cn \<noteq> None" by (auto simp: evCodes_def)
    with e l show ?thesis by (metis Un_iff fst_conv insert_iff list.set(2) option.distinct(1) set_append empty_iff list.set(1))
  qed
  have e: "indices (quantize img) \<noteq> []" if "0 < width img * height img"
    using quantize_shape(2) [of img] that by auto
  have f: "jsIndex xs 0 = Some (hd xs)" if "xs \<noteq> []"
    using that by (cases xs) (simp_all add: jsIndex_def)
  from a b c d e f quantize_shape(3) [of _ img] show ?thesis by (simp add: jsIndex_def)
qed

theorem lzwEncode_empty_witness:
  "[7] \<noteq> ([] :: nat list) \<and> list_all (\<lambda>k. k < 256) [7 :: nat] \<and>
   list_all (\<lambda>cn. fst cn \<noteq> None) (lzwCodes [7] 8) \<and>
   0 < width \<lparr>data = [255, 0, 0, 255], width = 1, height = 1\<rparr>
         * height \<lparr>data = [255, 0, 0, 255], width = 1, height = 1\<rparr> \<and>
   indices (quantize \<lparr>data = [255, 0, 0, 255], width = 1, height = 1\<rparr>) \<noteq> []"
  using lzwEncode_empty [of "[7]" "\<lparr>data = [255, 0, 0, 255], width = 1, height = 1\<rparr>"]
  by (simp add: list_all_iff)

section \<open>The store: what a call leaves as it was\<close>

lemma alloc_simps:
  "alloc x h = (a, h') \<Longrightarrow> a = length h \<and> h' = h @ [x]"
  by (auto simp: alloc_def)

lemma pixelsAt_append: "a < length h \<Longrightarrow> pixelsAt (h @ xs) a = pixelsAt h a"
  by (simp add: pixelsAt_def nth_append)

lemma pixelsAt_new [simp]: "pixelsAt (h @ [Pixels ps]) (length h) = ps"
  by (simp add: pixelsAt_def)

lemma pixelsAt_upd [simp]: "a < length h \<Longrightarrow> pixelsAt (h[a := Pixels ps]) a = ps"
  by (simp add: pixelsAt_def)

lemma length_insertBy [simp]: "length (insertBy ch x ys) = Suc (length ys)"
  by (induction ys) simp_all

lemma length_sortBy [simp]: "length (sortBy ch pixels) = length pixels"
proof -
  have "length (foldl (\<lambda>acc x. insertBy ch x acc) acc pixels) = length acc + length pixels" for acc
    by (induction pixels arbitrary: acc) simp_all
  then show ?thesis by (simp add: sortBy_def)
qed

lemma medianCutH_frame:
  assumes "medianCutH depth pa h = (ra, h')" "pa < length h"
  shows "length h \<le> ra \<and> ra < length h' \<and> keeps h pa h' \<and>
         pixelsAt h' ra = medianCut (pixelsAt h pa) depth"
  using assms
proof (induction depth arbitrary: pa h ra h')
  case 0
  then show ?case by (auto simp: alloc_def keeps_def nth_append)
next
  case (Suc depth)
  let ?pixels = "pixelsAt h pa"
  show ?case
  proof (cases "length ?pixels = 0")
    case True
    with Suc.prems show ?thesis by (auto simp: alloc_def keeps_def nth_append Let_def)
  next
    case False
    define sorted where "sorted = sortBy (widestChannel ?pixels) ?pixels"
    define h1 where "h1 = h[pa := Pixels sorted]"
    define mid where "mid = length ?pixels div 2"
    define lo where "lo = length h1"
    define h2 where "h2 = h1 @ [Pixels (take mid sorted)]"
    obtain r1 h3 where c1: "medianCutH depth lo h2 = (r1, h3)" by (cases "medianCutH depth lo h2")
    define hi where "hi = length h3"
    define h4 where "h4 = h3 @ [Pixels (drop mid (pixelsAt h3 pa))]"
    obtain r2 h5 where c2: "medianCutH depth hi h4 = (r2, h5)" by (cases "medianCutH depth hi h4")
    have p1: "pixelsAt h1 pa = sorted" using Suc.prems(2) by (simp add: h1_def)
    have "medianCutH (Suc depth) pa h = (length h5, h5 @ [Pixels (pixelsAt h5 r1 @ pixelsAt h5 r2)])"
      using False c1 c2 Suc.prems(2)
      by (simp add: Let_def alloc_def sorted_def h1_def mid_def lo_def h2_def hi_def h4_def)
    with Suc.prems(1) have res: "ra = length h5" "h' = h5 @ [Pixels (pixelsAt h5 r1 @ pixelsAt h5 r2)]"
      by simp_all
    have l1: "length h1 = length h" by (simp add: h1_def)
    have lo: "lo < length h2" by (simp add: lo_def h2_def)
    from Suc.IH [OF c1 lo] have i1: "length h2 \<le> r1" "r1 < length h3" "keeps h2 lo h3"
      "pixelsAt h3 r1 = medianCut (pixelsAt h2 lo) depth" by simp_all
    have hi: "hi < length h4" by (simp add: hi_def h4_def)
    from Suc.IH [OF c2 hi] have i2: "length h4 \<le> r2" "r2 < length h5" "keeps h4 hi h5"
      "pixelsAt h5 r2 = medianCut (pixelsAt h4 hi) depth" by simp_all
    have pa3: "pixelsAt h3 pa = sorted"
    proof -
      have "pa < length h2" "pa \<noteq> lo" using Suc.prems(2) l1 by (simp_all add: h2_def lo_def)
      with i1(3) have "h3 ! pa = h2 ! pa" by (simp add: keeps_def)
      moreover have "pa < length h3" using i1(3) \<open>pa < length h2\<close> by (simp add: keeps_def)
      ultimately have "pixelsAt h3 pa = pixelsAt h2 pa"
        using \<open>pa < length h2\<close> by (simp add: pixelsAt_def)
      also have "\<dots> = sorted"
        using Suc.prems(2) l1 p1 by (simp add: h2_def pixelsAt_append)
      finally show ?thesis .
    qed
    have r1_5: "pixelsAt h5 r1 = pixelsAt h3 r1"
    proof -
      have "r1 < length h4" "r1 \<noteq> hi" using i1(2) by (simp_all add: h4_def hi_def)
      with i2(3) have "h5 ! r1 = h4 ! r1" by (simp add: keeps_def)
      moreover have "r1 < length h5" using i2(3) \<open>r1 < length h4\<close> by (simp add: keeps_def)
      moreover have "h4 ! r1 = h3 ! r1" using i1(2) by (simp add: h4_def nth_append)
      ultimately show ?thesis using i1(2) by (simp add: pixelsAt_def)
    qed
    have lo_px: "pixelsAt h2 lo = take mid sorted" by (simp add: h2_def lo_def)
    have hi_px: "pixelsAt h4 hi = drop mid sorted" by (simp add: h4_def hi_def pa3)
    have mc: "medianCut ?pixels (Suc depth) =
        medianCut (take mid sorted) depth @ medianCut (drop mid sorted) depth"
      using False by (simp add: Let_def sorted_def mid_def)
    have k: "keeps h pa h'"
      unfolding keeps_def
    proof (intro conjI allI impI)
      show "length h \<le> length h'"
        using i1(3) i2(3) l1 by (simp add: res keeps_def h2_def h4_def)
      fix a assume a: "a < length h" "a \<noteq> pa"
      have a2: "a < length h2" "a \<noteq> lo" using a l1 by (simp_all add: h2_def lo_def)
      then have a3: "h3 ! a = h2 ! a" "a < length h3" using i1(3) by (simp_all add: keeps_def)
      then have a4: "a < length h4" "a \<noteq> hi" by (simp_all add: h4_def hi_def)
      then have a5: "h5 ! a = h4 ! a" "a < length h5" using i2(3) by (simp_all add: keeps_def)
      have "h' ! a = h5 ! a" using a5(2) by (simp add: res nth_append)
      also have "\<dots> = h3 ! a" using a5(1) a3(2) by (simp add: h4_def nth_append)
      also have "\<dots> = h1 ! a" using a3(1) a l1 by (simp add: h2_def nth_append)
      also have "\<dots> = h ! a" using a by (simp add: h1_def)
      finally show "h' ! a = h ! a" .
    qed
    have "length h \<le> ra"
      using i1(3) i2(3) l1 by (simp add: res keeps_def h2_def h4_def)
    moreover have "pixelsAt h' ra = medianCut ?pixels (Suc depth)"
      unfolding mc by (simp add: res i2(4) hi_px r1_5 i1(4) lo_px)
    ultimately show ?thesis using k by (simp add: res)
  qed
qed

lemma numsAt_cong: "a < length h \<Longrightarrow> a < length h' \<Longrightarrow> h' ! a = h ! a \<Longrightarrow> numsAt h' a = numsAt h a"
  by (simp add: numsAt_def)

lemma quantizeH_frame:
  assumes "quantizeH da wd ht h = ((pa, ia), h')"
  shows "length h \<le> length h'" "\<forall>a<length h. h' ! a = h ! a"
    "length h \<le> pa" "length h \<le> ia" "pa < length h'" "ia < length h'" "pa \<noteq> ia"
    "da < length h \<Longrightarrow> pixelsAt h' pa = palette (quantize \<lparr>data = numsAt h da, width = wd, height = ht\<rparr>)"
    "da < length h \<Longrightarrow> numsAt h' ia = indices (quantize \<lparr>data = numsAt h da, width = wd, height = ht\<rparr>)"
proof -
  let ?img = "\<lparr>data = numsAt h da, width = wd, height = ht\<rparr>"
  define sa where "sa = length h"
  define h2 where "h2 = h @ [Pixels (samplesOf ?img)]"
  obtain p h3 where c: "medianCutH 8 sa h2 = (p, h3)" by (cases "medianCutH 8 sa h2")
  define pal where "pal = padPalette (pixelsAt h3 p)"
  define h4 where "h4 = h3[p := Pixels pal]"
  define h5 where "h5 = h4 @ [Nums (replicate (wd * ht) 0)]"
  define ixs where "ixs = map (\<lambda>i. nearest (pixelsAt h5 p) (pixelAt (numsAt h5 da) i)) [0..<wd * ht]"
  have "quantizeH da wd ht h = ((p, length h4), h4 @ [Nums ixs])"
    using c by (simp add: quantizeH_def Let_def alloc_def sa_def h2_def pal_def h4_def h5_def ixs_def)
  with assms have res: "pa = p" "ia = length h4" "h' = h4 @ [Nums ixs]" by simp_all
  have sa: "sa < length h2" "length h2 = Suc (length h)" by (simp_all add: sa_def h2_def)
  from medianCutH_frame [OF c sa(1)] have f: "length h2 \<le> p" "p < length h3" "keeps h2 sa h3"
    "pixelsAt h3 p = medianCut (pixelsAt h2 sa) 8" by simp_all
  have l3: "length h2 \<le> length h3" using f(3) by (simp add: keeps_def)
  have px2: "pixelsAt h2 sa = samplesOf ?img" by (simp add: h2_def sa_def pixelsAt_def)
  show "length h \<le> length h'" using l3 sa(2) by (simp add: res h4_def)
  show "length h \<le> pa" using f(1) sa(2) by (simp add: res)
  show "length h \<le> ia" using l3 sa(2) by (simp add: res h4_def)
  show "pa < length h'" using f(2) by (simp add: res h4_def)
  show "ia < length h'" by (simp add: res)
  show "pa \<noteq> ia" using f(2) by (simp add: res h4_def)
  have old: "h' ! a = h ! a" if "a < length h" for a
  proof -
    have a: "a < length h2" "a \<noteq> sa" "a \<noteq> p" "a < length h3"
      using that sa(2) f(1) l3 by (simp_all add: sa_def)
    have "h' ! a = h3 ! a" using a by (simp add: res h4_def nth_append)
    also have "\<dots> = h2 ! a" using f(3) a by (simp add: keeps_def)
    also have "\<dots> = h ! a" using a that by (simp add: h2_def nth_append)
    finally show ?thesis .
  qed
  then show "\<forall>a<length h. h' ! a = h ! a" by simp
  have p5: "pixelsAt h5 p = pal" using f(2) by (simp add: h5_def h4_def pixelsAt_append)
  have palq: "pal = palette (quantize ?img)"
    by (simp add: pal_def f(4) px2 quantize_def Let_def)
  show "pixelsAt h' pa = palette (quantize ?img)" if "da < length h"
  proof -
    have "pixelsAt h' pa = pixelsAt h5 p" using f(2) by (simp add: res pixelsAt_def h5_def h4_def nth_append)
    then show ?thesis by (simp add: p5 palq)
  qed
  show "numsAt h' ia = indices (quantize ?img)" if "da < length h"
  proof -
    have d: "da < length h2" "da \<noteq> sa" "da \<noteq> p" "da < length h3"
      using that sa(2) f(1) l3 by (simp_all add: sa_def)
    have "h5 ! da = h3 ! da" using d by (simp add: h5_def h4_def nth_append)
    also have "\<dots> = h2 ! da" using f(3) d by (simp add: keeps_def)
    also have "\<dots> = h ! da" using d that by (simp add: h2_def nth_append)
    finally have "numsAt h5 da = numsAt h da"
      using that d(4) by (intro numsAt_cong) (simp_all add: h5_def h4_def)
    then have "ixs = indices (quantize ?img)"
      by (simp add: ixs_def p5 palq quantize_def Let_def)
    then show ?thesis by (simp add: res numsAt_def)
  qed
qed

section \<open>Claim about the caller's buffer\<close>

text \<open>
  Claim C9. Let the caller's buffer be an array of the store. After \<open>buildGif\<close> every array
  that was in the store holds what it held, the caller's buffer among them; the result is
  an array at a new address, and it holds the bytes that \<open>buildGif\<close> computes from the buffer
  (so there is no failure). The same holds of \<open>quantize\<close>, whose palette and indices are two
  new arrays, and of \<open>lzwEncode\<close>, whose result is a new array.
\<close>

theorem core_keeps_store:
  assumes "da < length h" "buildGifH da wd ht h = (r, h')"
  shows "(\<forall>a<length h. h' ! a = h ! a) \<and> numsAt h' da = numsAt h da \<and>
         (\<exists>ba. r = Inr ba \<and> length h \<le> ba \<and> ba < length h' \<and>
            buildGif \<lparr>data = numsAt h da, width = wd, height = ht\<rparr> = Inr (numsAt h' ba)) \<and>
         (\<forall>pa ia h1. quantizeH da wd ht h = ((pa, ia), h1) \<longrightarrow>
            (\<forall>a<length h. h1 ! a = h ! a) \<and> length h \<le> pa \<and> length h \<le> ia \<and> pa \<noteq> ia \<and>
            pa < length h1 \<and> ia < length h1 \<and>
            pixelsAt h1 pa = palette (quantize \<lparr>data = numsAt h da, width = wd, height = ht\<rparr>) \<and>
            numsAt h1 ia = indices (quantize \<lparr>data = numsAt h da, width = wd, height = ht\<rparr>)) \<and>
         (\<forall>ia m ca h1. lzwEncodeH ia m h = (ca, h1) \<longrightarrow>
            (\<forall>a<length h. h1 ! a = h ! a) \<and> ca = length h \<and> ca < length h1 \<and>
            numsAt h1 ca = lzwEncode (numsAt h ia) m)"
proof -
  let ?img = "\<lparr>data = numsAt h da, width = wd, height = ht\<rparr>"
  have q: "\<forall>pa ia h1. quantizeH da wd ht h = ((pa, ia), h1) \<longrightarrow>
            (\<forall>a<length h. h1 ! a = h ! a) \<and> length h \<le> pa \<and> length h \<le> ia \<and> pa \<noteq> ia \<and>
            pa < length h1 \<and> ia < length h1 \<and>
            pixelsAt h1 pa = palette (quantize ?img) \<and> numsAt h1 ia = indices (quantize ?img)"
  proof (intro allI impI)
    fix pa ia h1 assume a: "quantizeH da wd ht h = ((pa, ia), h1)"
    note f = quantizeH_frame [OF a]
    from f(2-7) f(8,9) [OF assms(1)]
    show "(\<forall>a<length h. h1 ! a = h ! a) \<and> length h \<le> pa \<and> length h \<le> ia \<and> pa \<noteq> ia \<and>
            pa < length h1 \<and> ia < length h1 \<and>
            pixelsAt h1 pa = palette (quantize ?img) \<and> numsAt h1 ia = indices (quantize ?img)"
      by simp
  qed
  have l: "\<forall>ia m ca h1. lzwEncodeH ia m h = (ca, h1) \<longrightarrow>
            (\<forall>a<length h. h1 ! a = h ! a) \<and> ca = length h \<and> ca < length h1 \<and>
            numsAt h1 ca = lzwEncode (numsAt h ia) m"
    by (auto simp: lzwEncodeH_def alloc_def nth_append numsAt_def)
  obtain pa ia h1 where qh: "quantizeH da wd ht h = ((pa, ia), h1)"
    by (cases "quantizeH da wd ht h") auto
  note f = quantizeH_frame [OF qh]
  from gctBytes_Inr [OF quantize_shape(1), of ?img] obtain gct where
    g: "gctBytes (palette (quantize ?img)) = Inr gct" by blast
  define h2 where "h2 = h1 @ [Nums (lzwEncode (numsAt h1 ia) 8)]"
  define bytes where "bytes = concat
                   ([[0x47, 0x49, 0x46, 0x38, 0x39, 0x61],
                     le16 wd @ le16 ht @ [0xf7, 0x00, 0x00],
                     gct,
                     [0x21, 0xf9, 0x04, 0x00, 0x00, 0x00, 0x00, 0x00],
                     [0x2c] @ le16 0 @ le16 0 @ le16 wd @ le16 ht @ [0x00],
                     [8]]
                    @ subBlocks (numsAt h2 (length h1)) 0
                    @ [[0x00], [0x3b]])"
  have "buildGifH da wd ht h = (Inr (length h2), h2 @ [Nums bytes])"
    using qh g f(8) [OF assms(1)]
    by (simp add: buildGifH_def Let_def lzwEncodeH_def alloc_def h2_def bytes_def)
  with assms(2) have res: "r = Inr (length h2)" "h' = h2 @ [Nums bytes]" by simp_all
  have c: "numsAt h2 (length h1) = lzwEncode (indices (quantize ?img)) 8"
    using f(9) [OF assms(1)] by (simp add: h2_def numsAt_def)
  have b: "buildGif ?img = Inr bytes"
    using g by (simp add: buildGif_def Let_def bytes_def c)
  have old: "\<forall>a<length h. h' ! a = h ! a"
    using f(1,2) by (simp add: res h2_def nth_append)
  have d: "numsAt h' da = numsAt h da"
    using assms(1) f(1) old by (intro numsAt_cong) (simp_all add: res h2_def)
  have e: "\<exists>ba. r = Inr ba \<and> length h \<le> ba \<and> ba < length h' \<and> buildGif ?img = Inr (numsAt h' ba)"
  proof -
    have "numsAt h' (length h2) = bytes" by (simp add: res numsAt_def)
    with f(1) b show ?thesis by (simp add: res h2_def)
  qed
  from old d e q l show ?thesis by blast
qed

theorem core_keeps_store_witness:
  "(0::nat) < length [Nums [255, 0, 0, 255]] \<and>
   numsAt (snd (buildGifH 0 1 1 [Nums [255, 0, 0, 255]])) 0 = numsAt [Nums [255, 0, 0, 255]] 0 \<and>
   (\<exists>ba. fst (buildGifH 0 1 1 [Nums [255, 0, 0, 255]]) = Inr ba \<and> 1 \<le> ba)"
  using core_keeps_store [of 0 "[Nums [255, 0, 0, 255]]" 1 1
      "fst (buildGifH 0 1 1 [Nums [255, 0, 0, 255]])" "snd (buildGifH 0 1 1 [Nums [255, 0, 0, 255]])"]
  by auto

end
